theory Spec2Isabelle
  imports Main
begin

section \<open>Values, objects and the heap\<close>

text \<open>
  The program (lib/scope.js) works on JavaScript objects that are shared by
  reference: scopes, service descriptors (constructor functions or plain
  objects), constructed instances, and the arrays of descriptors held by the
  \<open>services\<close> map of each scope. Objects live in a heap and are named by their
  address; reference equality of the source is equality of addresses.

  Boundaries of the model:
  \<^item> a registered descriptor is an object (a function or a plain object), as the
    documentation of \<open>register\<close> says;
  \<^item> a constructor body only records the arguments it received; it does not
    return another object and does not touch the scope;
  \<^item> the data properties \<open>scope\<close>, \<open>transient\<close>, \<open>isStatic\<close>, \<open>scopeName\<close>,
    \<open>parentScope\<close> and every injected property are entries of \<open>props\<close>; the
    fields \<open>inject\<close>, \<open>injectProperties\<close>, \<open>services\<close>, \<open>instances\<close> and the
    methods are typed fields that property injection does not overwrite;
  \<^item> a method of a service answers its callback at most once and does not
    change the heap; \<open>methods\<close> holds all that \<open>service[name]\<close> finds for the
    method names in use, which are not names inherited from
    \<open>Object.prototype\<close>; the wiring of static event handlers is not modelled;
  \<^item> the \<open>services\<close> and \<open>instances\<close> maps of a scope are plain objects, as
    \<open>scope\<close> creates them: a name that is not an own property of the map is
    looked up in \<open>Object.prototype\<close>, where it finds one of the inherited
    functions (\<open>constructor\<close>, \<open>toString\<close>, ...) or, for \<open>__proto__\<close>, the
    prototype object itself. The indexed properties that the instance cache
    writes on an inherited function are shared by all scopes
    (\<open>functionSlots\<close>); \<open>Object.prototype\<close> itself has no indexed property.
    A services map that has, or is given, an own property \<open>__proto__\<close> is not
    followed: the lookup and \<open>scope\<close> give \<open>Unsupported\<close> there.
\<close>

type_synonym ref = nat

datatype val = Undefined | Null | Bool bool | Str string | Ref ref

fun truthy :: "val \<Rightarrow> bool" where
  "truthy Undefined = False"
| "truthy Null = False"
| "truthy (Bool b) = b"
| "truthy (Str s) = (s \<noteq> [])"
| "truthy (Ref r) = True"

text \<open>What a step does with the callback it is given: it passes a value
  (\<open>Undefined\<close> when it calls \<open>next()\<close>), or it never calls it.\<close>

datatype reply = Calls val | Silent

record obj =
  isFunction :: bool
  props :: "string \<rightharpoonup> val"
  inject :: "string list option"
  injectProperties :: "(string \<times> string) list option"
  methods :: "string \<rightharpoonup> (val \<Rightarrow> reply)"
  protoMethods :: "string \<rightharpoonup> (val \<Rightarrow> reply)"
  built :: "(ref \<times> val list) option"
  hasInit :: bool
  services :: "(string \<times> nat) list option"
  instances :: "string \<rightharpoonup> (nat \<rightharpoonup> val)"
  scopeInitialized :: bool

record heap =
  objs :: "obj list"
  arrs :: "ref list list"
  initLog :: "(ref \<times> ref) list"
  functionSlots :: "string \<rightharpoonup> (nat \<rightharpoonup> val)"

text \<open>The errors of the program: the error of \<open>getSingleton\<close>, with the
  service name and the scope name, and TypeError. The other outcomes are not
  values of the program: an address that is not in the heap, a walk that
  never ends, a nesting of resolutions deeper than the fuel, and a case that
  the model does not follow.\<close>

datatype error =
    ScopeNotFound string val
  | TypeError
  | BadRef
  | Diverges
  | OutOfFuel
  | Unsupported

type_synonym 'a res = "error + ('a \<times> heap)"

definition getObj :: "heap \<Rightarrow> ref \<Rightarrow> obj option" where
  "getObj h r = (if r < length (objs h) then Some (objs h ! r) else None)"

definition getArr :: "heap \<Rightarrow> nat \<Rightarrow> ref list option" where
  "getArr h a = (if a < length (arrs h) then Some (arrs h ! a) else None)"

definition updObj :: "heap \<Rightarrow> ref \<Rightarrow> (obj \<Rightarrow> obj) \<Rightarrow> heap" where
  "updObj h r f = h\<lparr>objs := (objs h)[r := f (objs h ! r)]\<rparr>"

definition getProp :: "obj \<Rightarrow> string \<Rightarrow> val" where
  "getProp ob k = (case props ob k of None \<Rightarrow> Undefined | Some v \<Rightarrow> v)"

text \<open>Reading a property of a value: a primitive has none of the properties
  the program reads.\<close>

definition propOfVal :: "heap \<Rightarrow> val \<Rightarrow> string \<Rightarrow> val" where
  "propOfVal h v k =
     (case v of
        Ref r \<Rightarrow> (case getObj h r of None \<Rightarrow> Undefined | Some ob \<Rightarrow> getProp ob k)
      | _ \<Rightarrow> Undefined)"

definition setProp :: "heap \<Rightarrow> ref \<Rightarrow> string \<Rightarrow> val \<Rightarrow> heap" where
  "setProp h r k v = updObj h r (\<lambda>ob. ob\<lparr>props := (props ob)(k \<mapsto> v)\<rparr>)"

text \<open>An object with no property and no method, and a function with none.\<close>

definition plainObject :: obj where
  "plainObject =
     \<lparr>isFunction = False, props = Map.empty, inject = None, injectProperties = None,
      methods = Map.empty, protoMethods = Map.empty, built = None, hasInit = False,
      services = None, instances = Map.empty, scopeInitialized = False\<rparr>"

definition functionObject :: obj where
  "functionObject = plainObject\<lparr>isFunction := True\<rparr>"

text \<open>\<open>new ServiceClass(args)\<close>: a fresh object at the next free address,
  with the methods of the prototype of its class.\<close>

definition newInstance :: "heap \<Rightarrow> ref \<Rightarrow> val list \<Rightarrow> ref \<times> heap" where
  "newInstance h cls args =
     (length (objs h),
      h\<lparr>objs := objs h @
        [plainObject\<lparr>methods := (case getObj h cls of
                                    None \<Rightarrow> Map.empty
                                  | Some c \<Rightarrow> protoMethods c),
                      built := Some (cls, args)\<rparr>]\<rparr>)"

section \<open>The instantiator: construct\<close>

text \<open>\<open>scope.require(dependency)\<close> is a call through the scope object; the
  instantiator and the instance cache take it as the parameter \<open>req\<close>.\<close>

type_synonym requirer = "heap \<Rightarrow> ref \<Rightarrow> string \<Rightarrow> val res"

fun requireDependency :: "requirer \<Rightarrow> heap \<Rightarrow> ref \<Rightarrow> string list \<Rightarrow> (val list) res" where
  "requireDependency req h sc [] = Inr ([], h)"
| "requireDependency req h sc (d # ds) =
     (case req h sc d of
        Inl e \<Rightarrow> Inl e
      | Inr (v, h1) \<Rightarrow>
          (case requireDependency req h1 sc ds of
             Inl e \<Rightarrow> Inl e
           | Inr (vs, h2) \<Rightarrow> Inr (v # vs, h2)))"

fun injectProperty :: "requirer \<Rightarrow> heap \<Rightarrow> ref \<Rightarrow> ref \<Rightarrow> (string \<times> string) list \<Rightarrow> unit res" where
  "injectProperty req h sc inst [] = Inr ((), h)"
| "injectProperty req h sc inst ((p, s) # ps) =
     (case req h sc s of
        Inl e \<Rightarrow> Inl e
      | Inr (v, h1) \<Rightarrow> injectProperty req (setProp h1 inst p v) sc inst ps)"

text \<open>The constructor arguments that \<open>construct\<close> builds for a constructible
  descriptor, and the state after resolving them.\<close>

definition constructorArguments ::
  "requirer \<Rightarrow> heap \<Rightarrow> ref \<Rightarrow> obj \<Rightarrow> val \<Rightarrow> (val list) res" where
  "constructorArguments req h sc c options =
     (case inject c of
        Some deps \<Rightarrow>
          (case requireDependency req h sc deps of
             Inl e \<Rightarrow> Inl e
           | Inr (args, h1) \<Rightarrow>
               Inr (if truthy options then args @ [options] else args, h1))
      | None \<Rightarrow> Inr ([Ref sc, options], h))"

definition construct :: "requirer \<Rightarrow> heap \<Rightarrow> ref \<Rightarrow> ref \<Rightarrow> val \<Rightarrow> val res" where
  "construct req h sc cls options =
     (case getObj h cls of
        None \<Rightarrow> Inl BadRef
      | Some c \<Rightarrow>
          (case (if isFunction c \<and> \<not> truthy (getProp c ''isStatic'')
                 then (case constructorArguments req h sc c options of
                         Inl e \<Rightarrow> Inl e
                       | Inr (args, h1) \<Rightarrow> Inr (newInstance h1 cls args))
                 else Inr (cls, h)) of
             Inl e \<Rightarrow> Inl e
           | Inr (inst, h2) \<Rightarrow>
               (case injectProperties c of
                  None \<Rightarrow> Inr (Ref inst, h2)
                | Some ps \<Rightarrow>
                    (case injectProperty req h2 sc inst ps of
                       Inl e \<Rightarrow> Inl e
                     | Inr (u, h3) \<Rightarrow> Inr (Ref inst, h3)))))"

section \<open>The instance cache: getSingleton\<close>

text \<open>The walk up the parent chain. It runs on an unchanged heap. A walk
  that ends goes through objects of the heap that are all different, then
  at most through one value that is not an object, and stops at a falsy
  value: it makes at most \<open>length (objs h) + 2\<close> steps. A longer walk has
  met an object twice and never ends. So the fuel \<open>walkFuel h\<close> given by
  \<open>getSingleton\<close> is exhausted exactly when the loop of the source
  diverges.\<close>

definition walkFuel :: "heap \<Rightarrow> nat" where
  "walkFuel h = Suc (Suc (Suc (length (objs h))))"

fun findScope :: "nat \<Rightarrow> heap \<Rightarrow> val \<Rightarrow> val \<Rightarrow> val option" where
  "findScope 0 h cur aff = None"
| "findScope (Suc n) h cur aff =
     (if truthy cur \<and> propOfVal h cur ''scopeName'' \<noteq> aff
      then findScope n h (propOfVal h cur ''parentScope'') aff
      else Some cur)"

fun indexOf :: "ref list \<Rightarrow> ref \<Rightarrow> nat option" where
  "indexOf [] x = None"
| "indexOf (y # ys) x =
     (if y = x then Some 0
      else (case indexOf ys x of None \<Rightarrow> None | Some i \<Rightarrow> Some (Suc i)))"

text \<open>The functions that every plain object inherits from
  \<open>Object.prototype\<close>, each with its \<open>length\<close>. \<open>map[name]\<close> finds one of
  them when \<open>name\<close> is not an own property of \<open>map\<close>; for \<open>__proto__\<close> it
  finds \<open>Object.prototype\<close>.\<close>

definition protoFunctions :: "(string \<times> nat) list" where
  "protoFunctions =
     [(''constructor'', 1), (''toString'', 0), (''toLocaleString'', 0), (''valueOf'', 0),
      (''hasOwnProperty'', 1), (''isPrototypeOf'', 1), (''propertyIsEnumerable'', 1),
      (''__defineGetter__'', 2), (''__defineSetter__'', 2),
      (''__lookupGetter__'', 1), (''__lookupSetter__'', 1)]"

definition functionLength :: "string \<Rightarrow> nat option" where
  "functionLength name = map_of protoFunctions name"

definition inheritedName :: "string \<Rightarrow> bool" where
  "inheritedName name \<longleftrightarrow> functionLength name \<noteq> None \<or> name = ''__proto__''"

definition slotOf :: "(string \<rightharpoonup> (nat \<rightharpoonup> val)) \<Rightarrow> string \<Rightarrow> nat \<Rightarrow> val" where
  "slotOf m service index =
     (case m service of
        None \<Rightarrow> Undefined
      | Some slots \<Rightarrow> (case slots index of None \<Rightarrow> Undefined | Some v \<Rightarrow> v))"

text \<open>\<open>scope.instances[service]\<close> is the inherited function: \<open>service\<close> names
  one and the \<open>instances\<close> map of the scope has no own entry for it.\<close>

definition sharedSlots :: "heap \<Rightarrow> ref \<Rightarrow> string \<Rightarrow> bool" where
  "sharedSlots h sc service \<longleftrightarrow>
     functionLength service \<noteq> None \<and>
     (case getObj h sc of None \<Rightarrow> False | Some ob \<Rightarrow> instances ob service = None)"

text \<open>\<open>scope.instances[service][index]\<close>.\<close>

definition cached :: "heap \<Rightarrow> ref \<Rightarrow> string \<Rightarrow> nat \<Rightarrow> val" where
  "cached h sc service index =
     (if sharedSlots h sc service then slotOf (functionSlots h) service index
      else (case getObj h sc of
              None \<Rightarrow> Undefined
            | Some ob \<Rightarrow> slotOf (instances ob) service index))"

text \<open>\<open>scope.instances[service] = new Array(n)\<close> when \<open>scope.instances[service]\<close>
  is falsy: the entry is missing and the name is not an inherited one.\<close>

definition allocInstances :: "heap \<Rightarrow> ref \<Rightarrow> string \<Rightarrow> heap" where
  "allocInstances h sc service =
     updObj h sc (\<lambda>ob. case instances ob service of
                          None \<Rightarrow> if inheritedName service then ob
                                  else ob\<lparr>instances := (instances ob)(service \<mapsto> Map.empty)\<rparr>
                        | Some slots \<Rightarrow> ob)"

text \<open>\<open>instances[index] = v\<close>, where \<open>instances\<close> is \<open>scope.instances[service]\<close>:
  an own array of the scope, or the inherited function, which all scopes
  share. (The cache never writes under \<open>__proto__\<close>: \<open>getSingleton\<close> raises
  before.)\<close>

definition setInstance :: "heap \<Rightarrow> ref \<Rightarrow> string \<Rightarrow> nat \<Rightarrow> val \<Rightarrow> heap" where
  "setInstance h sc service index v =
     (if sharedSlots h sc service
      then h\<lparr>functionSlots := (functionSlots h)
             (service \<mapsto> (case functionSlots h service of
                              None \<Rightarrow> Map.empty
                            | Some slots \<Rightarrow> slots)(index \<mapsto> v))\<rparr>
      else updObj h sc (\<lambda>ob. ob\<lparr>instances := (instances ob)
             (service \<mapsto> (case instances ob service of
                              None \<Rightarrow> Map.empty
                            | Some slots \<Rightarrow> slots)(index \<mapsto> v))\<rparr>))"

text \<open>The own entry of \<open>scope.services\<close> for \<open>service\<close>: \<open>Inl TypeError\<close>
  when the object has no \<open>services\<close> map, \<open>None\<close> when the map has no own
  entry of that name (the lookup then goes to \<open>Object.prototype\<close>).\<close>

definition serviceClassesOf :: "heap \<Rightarrow> ref \<Rightarrow> string \<Rightarrow> error + (ref list option)" where
  "serviceClassesOf h sc service =
     (case getObj h sc of
        None \<Rightarrow> Inl BadRef
      | Some s \<Rightarrow>
          (case services s of
             None \<Rightarrow> Inl TypeError
           | Some svcs \<Rightarrow>
               (case map_of svcs service of
                  None \<Rightarrow> Inr None
                | Some a \<Rightarrow>
                    if service = ''__proto__'' then Inl Unsupported
                    else (case getArr h a of
                            None \<Rightarrow> Inl BadRef
                          | Some cs \<Rightarrow> Inr (Some cs)))))"

text \<open>The part of \<open>getSingleton\<close> that runs when the walk has found a scope
  \<open>cur\<close> other than the requesting one (lines 82 to 97). \<open>None\<close> means that
  the descriptor is not in the list of \<open>cur\<close> and control falls through. When
  \<open>cur\<close> has no own list, \<open>indexOf\<close> is not a function of what the lookup
  finds.\<close>

definition fromOwningScope ::
  "requirer \<Rightarrow> heap \<Rightarrow> ref \<Rightarrow> string \<Rightarrow> nat \<Rightarrow> val \<Rightarrow> ref \<Rightarrow> ref \<Rightarrow> (val res) option" where
  "fromOwningScope req h sc service index options cls cur =
     (case serviceClassesOf h cur service of
        Inl e \<Rightarrow> Some (Inl e)
      | Inr None \<Rightarrow> Some (Inl TypeError)
      | Inr (Some ccs) \<Rightarrow>
          (case indexOf ccs cls of
             None \<Rightarrow> None
           | Some ci \<Rightarrow>
               (let h1 = allocInstances h cur service;
                    instance = cached h1 cur service ci
                in if truthy instance
                   then Some (Inr (instance, setInstance h1 sc service index instance))
                   else (case construct req h1 cur cls options of
                           Inl e \<Rightarrow> Some (Inl e)
                         | Inr (v, h2) \<Rightarrow>
                             Some (Inr (v, setInstance (setInstance h2 sc service index v)
                                             cur service ci v))))))"

text \<open>\<open>getSingleton\<close> from line 73 on, for the descriptor \<open>cls\<close> found at
  \<open>serviceClasses[index]\<close>.\<close>

definition singletonOf ::
  "requirer \<Rightarrow> heap \<Rightarrow> obj \<Rightarrow> ref \<Rightarrow> string \<Rightarrow> nat \<Rightarrow> val \<Rightarrow> ref \<Rightarrow> val res" where
  "singletonOf req h0 s sc service index options cls =
     (let aff = propOfVal h0 (Ref cls) ''scope'';
          local = (case construct req h0 sc cls options of
                     Inl e \<Rightarrow> Inl e
                   | Inr (v, h2) \<Rightarrow>
                       Inr (v, setInstance h2 sc service index v))
      in if \<not> truthy aff then local
         else
           (case findScope (walkFuel h0) h0 (Ref sc) aff of
              None \<Rightarrow> Inl Diverges
            | Some cur \<Rightarrow>
                (case (case cur of
                         Ref c \<Rightarrow>
                           if c \<noteq> sc
                           then fromOwningScope req h0 sc service
                                  index options cls c
                           else None
                       | _ \<Rightarrow>
                           if truthy cur then Some (Inl TypeError)
                           else None) of
                   Some r \<Rightarrow> r
                 | None \<Rightarrow>
                     if getProp s ''scopeName'' \<noteq> aff
                     then Inl (ScopeNotFound service aff)
                     else local)))"

text \<open>\<open>getSingleton\<close>. When the scope has no own list for \<open>service\<close>,
  \<open>serviceClasses\<close> is what \<open>Object.prototype\<close> gives: nothing, an inherited
  function (its indexed properties are then read as descriptors) or the
  prototype object, which has no indexed property.\<close>

definition getSingleton ::
  "requirer \<Rightarrow> heap \<Rightarrow> ref \<Rightarrow> string \<Rightarrow> nat \<Rightarrow> val \<Rightarrow> val res" where
  "getSingleton req h sc service index options =
     (case serviceClassesOf h sc service of
        Inl e \<Rightarrow> Inl e
      | Inr serviceClasses \<Rightarrow>
          (case getObj h sc of
             None \<Rightarrow> Inl BadRef
           | Some s \<Rightarrow>
               if instances s service = None \<and> serviceClasses = None \<and> \<not> inheritedName service
               then Inl TypeError
               else
                 (let h0 = allocInstances h sc service;
                      instance = cached h sc service index
                  in if truthy instance then Inr (instance, h0)
                     else
                       (case serviceClasses of
                          None \<Rightarrow>
                            (case functionLength service of
                               None \<Rightarrow> Inl TypeError
                             | Some len \<Rightarrow>
                                 (case slotOf (functionSlots h0) service index of
                                    Ref cls \<Rightarrow>
                                      singletonOf req h0 s sc service index options cls
                                  | Undefined \<Rightarrow> Inl TypeError
                                  | Null \<Rightarrow> Inl TypeError
                                  | sv \<Rightarrow>
                                      (let v = (if truthy sv then sv else Null)
                                       in Inr (v, setInstance h0 sc service index v))))
                        | Some cs \<Rightarrow>
                            if \<not> index < length cs then Inl TypeError
                            else singletonOf req h0 s sc service index options
                                   (cs ! index)))))"

section \<open>The scope: require and getServices\<close>

text \<open>\<open>scope$require\<close> when the scope has no own list for \<open>service\<close>:
  \<open>services\<close> is undefined, the prototype object (which has no \<open>length\<close>), or
  an inherited function, whose \<open>length\<close> and indexed properties are read.\<close>

definition requireInherited ::
  "requirer \<Rightarrow> heap \<Rightarrow> ref \<Rightarrow> string \<Rightarrow> val \<Rightarrow> val res" where
  "requireInherited req h sc service options =
     (case functionLength service of
        None \<Rightarrow> Inr (Null, h)
      | Some len \<Rightarrow>
          if len = 0 then Inr (Null, h)
          else
            (let sv = slotOf (functionSlots h) service (len - 1)
             in if \<not> truthy sv then Inr (Null, h)
                else if \<not> truthy (propOfVal h sv ''transient'')
                then getSingleton req h sc service (len - 1) options
                else (case sv of
                        Ref cls \<Rightarrow> construct req h sc cls options
                      | _ \<Rightarrow> Inr (sv, h))))"

text \<open>\<open>scope$require\<close>. The fuel bounds the depth of nested \<open>require\<close>
  calls made for injected dependencies; a cycle of dependencies exhausts any
  fuel, as it exhausts the stack of the source.\<close>

fun require :: "nat \<Rightarrow> heap \<Rightarrow> ref \<Rightarrow> string \<Rightarrow> val \<Rightarrow> val res" where
  "require 0 h sc service options = Inl OutOfFuel"
| "require (Suc n) h sc service options =
     (case serviceClassesOf h sc service of
        Inl e \<Rightarrow> Inl e
      | Inr None \<Rightarrow>
          requireInherited (\<lambda>h' sc' d. require n h' sc' d Undefined) h sc service options
      | Inr (Some cs) \<Rightarrow>
          if cs = [] then Inr (Null, h)
          else
            (case getObj h (last cs) of
               None \<Rightarrow> Inl BadRef
             | Some c \<Rightarrow>
                 if \<not> truthy (getProp c ''transient'')
                 then getSingleton (\<lambda>h' sc' d. require n h' sc' d Undefined)
                        h sc service (length cs - 1) options
                 else construct (\<lambda>h' sc' d. require n h' sc' d Undefined)
                        h sc (last cs) options))"

text \<open>The function that \<open>scope$getServices\<close> maps over the descriptors,
  and the map, from left to right with the index. When the scope has no own
  list but the name is an inherited one, \<open>service in self.services\<close> holds
  and \<open>map\<close> is not a function of what the lookup finds.\<close>

definition getServiceInstance ::
  "requirer \<Rightarrow> heap \<Rightarrow> ref \<Rightarrow> string \<Rightarrow> val \<Rightarrow> ref \<Rightarrow> nat \<Rightarrow> val res" where
  "getServiceInstance req h sc service options cls index =
     (case getObj h cls of
        None \<Rightarrow> Inl BadRef
      | Some c \<Rightarrow>
          if \<not> truthy (getProp c ''transient'')
          then getSingleton req h sc service index options
          else construct req h sc cls options)"

fun mapServices ::
  "requirer \<Rightarrow> heap \<Rightarrow> ref \<Rightarrow> string \<Rightarrow> val \<Rightarrow> nat \<Rightarrow> ref list \<Rightarrow> (val list) res" where
  "mapServices req h sc service options index [] = Inr ([], h)"
| "mapServices req h sc service options index (cls # rest) =
     (case getServiceInstance req h sc service options cls index of
        Inl e \<Rightarrow> Inl e
      | Inr (v, h1) \<Rightarrow>
          (case mapServices req h1 sc service options (Suc index) rest of
             Inl e \<Rightarrow> Inl e
           | Inr (vs, h2) \<Rightarrow> Inr (v # vs, h2)))"

definition getServices :: "nat \<Rightarrow> heap \<Rightarrow> ref \<Rightarrow> string \<Rightarrow> val \<Rightarrow> (val list) res" where
  "getServices n h sc service options =
     (case serviceClassesOf h sc service of
        Inl e \<Rightarrow> Inl e
      | Inr None \<Rightarrow> if inheritedName service then Inl TypeError else Inr ([], h)
      | Inr (Some cs) \<Rightarrow>
          mapServices (\<lambda>h' sc' d. require n h' sc' d Undefined)
            h sc service options 0 cs)"

section \<open>The scope: initialize, register, scope and makeSubScope\<close>

text \<open>The own properties of a plain object used as a dictionary are kept in
  the order in which \<open>for ... in\<close> and \<open>Object.getOwnPropertyNames\<close> list them:
  the array indices (the canonical decimal numerals below \<open>2^32 - 1\<close>) in
  ascending order, then the other names in the order of their creation.\<close>

definition digitValue :: "char \<Rightarrow> nat option" where
  "digitValue c =
     map_of [(CHR ''0'', 0), (CHR ''1'', 1), (CHR ''2'', 2), (CHR ''3'', 3), (CHR ''4'', 4),
             (CHR ''5'', 5), (CHR ''6'', 6), (CHR ''7'', 7), (CHR ''8'', 8), (CHR ''9'', 9)] c"

fun decimal :: "nat \<Rightarrow> string \<Rightarrow> nat option" where
  "decimal n [] = Some n"
| "decimal n (c # cs) =
     (case digitValue c of None \<Rightarrow> None | Some d \<Rightarrow> decimal (10 * n + d) cs)"

definition arrayIndex :: "string \<Rightarrow> nat option" where
  "arrayIndex k =
     (if k = [] \<or> (hd k = CHR ''0'' \<and> tl k \<noteq> []) then None
      else (case decimal 0 k of
              None \<Rightarrow> None
            | Some n \<Rightarrow> if n < 4294967295 then Some n else None))"

fun replaceKey :: "string \<Rightarrow> 'a \<Rightarrow> (string \<times> 'a) list \<Rightarrow> (string \<times> 'a) list" where
  "replaceKey k v [] = []"
| "replaceKey k v ((k', v') # kvs) =
     (if k' = k then (k, v) # kvs else (k', v') # replaceKey k v kvs)"

fun insertIndexKey :: "nat \<Rightarrow> string \<Rightarrow> 'a \<Rightarrow> (string \<times> 'a) list \<Rightarrow> (string \<times> 'a) list" where
  "insertIndexKey n k v [] = [(k, v)]"
| "insertIndexKey n k v ((k', v') # kvs) =
     (case arrayIndex k' of
        None \<Rightarrow> (k, v) # (k', v') # kvs
      | Some n' \<Rightarrow>
          if n' < n then (k', v') # insertIndexKey n k v kvs
          else (k, v) # (k', v') # kvs)"

text \<open>Assignment \<open>map[k] = v\<close>: an existing key keeps its place; a new key
  goes to its place among the array indices, or last.\<close>

definition setKey :: "string \<Rightarrow> 'a \<Rightarrow> (string \<times> 'a) list \<Rightarrow> (string \<times> 'a) list" where
  "setKey k v kvs =
     (if map_of kvs k \<noteq> None then replaceKey k v kvs
      else (case arrayIndex k of
              None \<Rightarrow> kvs @ [(k, v)]
            | Some n \<Rightarrow> insertIndexKey n k v kvs))"

text \<open>\<open>initializeService\<close>: the call of the \<open>init\<close> hook is recorded in
  \<open>initLog\<close>.\<close>

definition initializeService :: "heap \<Rightarrow> ref \<Rightarrow> ref \<Rightarrow> heap" where
  "initializeService h sc cls =
     (case getObj h cls of
        None \<Rightarrow> h
      | Some c \<Rightarrow> if hasInit c then h\<lparr>initLog := initLog h @ [(sc, cls)]\<rparr> else h)"




definition newArray :: "heap \<Rightarrow> ref list \<Rightarrow> nat \<times> heap" where
  "newArray h cs = (length (arrs h), h\<lparr>arrs := arrs h @ [cs]\<rparr>)"

definition register :: "heap \<Rightarrow> ref \<Rightarrow> string \<Rightarrow> ref \<Rightarrow> error + heap" where
  "register h sc name cls =
     (case getObj h sc of
        None \<Rightarrow> Inl BadRef
      | Some s \<Rightarrow>
          (case services s of
             None \<Rightarrow> Inl TypeError
           | Some svcs \<Rightarrow>
               if map_of svcs name = None \<and> inheritedName name then Inl TypeError
               else if map_of svcs name \<noteq> None \<and> name = ''__proto__'' then Inl Unsupported
               else
               (let h1 = (case map_of svcs name of
                            None \<Rightarrow>
                              (let (a, h') = newArray h [cls]
                               in updObj h' sc (\<lambda>ob. ob\<lparr>services := Some (setKey name a svcs)\<rparr>))
                          | Some a \<Rightarrow> h\<lparr>arrs := (arrs h)[a := arrs h ! a @ [cls]]\<rparr>)
                in Inr (if scopeInitialized s
                        then (case getObj h1 cls of
                                None \<Rightarrow> h1
                              | Some c \<Rightarrow>
                                  if props c ''scope'' = None
                                     \<or> getProp c ''scope'' = getProp s ''scopeName''
                                  then initializeService h1 sc cls
                                  else h1)
                        else h1))))"



section \<open>The sequencer: callService and lifecycle\<close>

text \<open>A run of the sequencer is the list of what it called, in order: the
  steps it ran and the call of \<open>done\<close>. The steps of a run are called one
  after the other, each from the callback of the one before
  (\<open>process.nextTick\<close>), so the run is the list of the calls in time.\<close>

datatype callee = Method val string | Function nat

datatype event = Ran callee | Done val

type_synonym step = "callee \<times> (val \<Rightarrow> reply)"

definition methodOf :: "heap \<Rightarrow> val \<Rightarrow> string \<Rightarrow> (val \<Rightarrow> reply) option" where
  "methodOf h v m =
     (case v of
        Ref r \<Rightarrow> (case getObj h r of None \<Rightarrow> None | Some ob \<Rightarrow> methods ob m)
      | _ \<Rightarrow> None)"

text \<open>\<open>nextService\<close> and \<open>nextStep\<close>: \<open>another\<close> says that one more step is
  left, \<open>k\<close> is the run of the steps that are left.\<close>

definition nextStep :: "val \<Rightarrow> bool \<Rightarrow> event list \<Rightarrow> event list" where
  "nextStep err another k =
     (if truthy err then [Done err] else if another then k else [Done Undefined])"

text \<open>\<open>callNthService(n)\<close> on the services from the \<open>n\<close>-th on.\<close>

fun callNthService :: "heap \<Rightarrow> string \<Rightarrow> val \<Rightarrow> val list \<Rightarrow> event list" where
  "callNthService h method options [] = []"
| "callNthService h method options (service # rest) =
     (case methodOf h service method of
        None \<Rightarrow> nextStep Undefined (rest \<noteq> []) (callNthService h method options rest)
      | Some f \<Rightarrow>
          Ran (Method service method) #
            (case f options of
               Silent \<Rightarrow> []
             | Calls err \<Rightarrow>
                 nextStep err (rest \<noteq> []) (callNthService h method options rest)))"

definition callService ::
  "nat \<Rightarrow> heap \<Rightarrow> ref \<Rightarrow> string \<Rightarrow> string \<Rightarrow> val \<Rightarrow> (event list) res" where
  "callService n h sc service method options =
     (case getServices n h sc service Undefined of
        Inl e \<Rightarrow> Inl e
      | Inr (svcs, h1) \<Rightarrow>
          Inr (if svcs \<noteq> [] then callNthService h1 method options svcs
               else [Done Undefined], h1))"

text \<open>An argument of \<open>lifecycle\<close>: a string or a function (named by a
  number, to tell the functions apart in a run).\<close>

datatype larg = Name string | Fn nat "val \<Rightarrow> reply"

text \<open>\<open>service[methodName].bind(service)\<close> for every service; the method
  name is missing when the argument list ends after the service name or
  goes on with a function.\<close>

fun serviceToMethod :: "heap \<Rightarrow> string option \<Rightarrow> val list \<Rightarrow> error + step list" where
  "serviceToMethod h m [] = Inr []"
| "serviceToMethod h m (service # rest) =
     (case (case m of None \<Rightarrow> None | Some methodName \<Rightarrow> methodOf h service methodName) of
        None \<Rightarrow> Inl TypeError
      | Some f \<Rightarrow>
          (case serviceToMethod h m rest of
             Inl e \<Rightarrow> Inl e
           | Inr steps \<Rightarrow> Inr ((Method service (the m), f) # steps)))"

definition expandPair :: "nat \<Rightarrow> heap \<Rightarrow> ref \<Rightarrow> string \<Rightarrow> string option \<Rightarrow> (step list) res" where
  "expandPair n h sc serviceName m =
     (case getServices n h sc serviceName Undefined of
        Inl e \<Rightarrow> Inl e
      | Inr (svcs, h1) \<Rightarrow>
          (case serviceToMethod h1 m svcs of
             Inl e \<Rightarrow> Inl e
           | Inr steps \<Rightarrow> Inr (steps, h1)))"

definition thenSteps :: "(step list) res \<Rightarrow> (heap \<Rightarrow> (step list) res) \<Rightarrow> (step list) res" where
  "thenSteps r k =
     (case r of
        Inl e \<Rightarrow> Inl e
      | Inr (steps, h1) \<Rightarrow>
          (case k h1 of Inl e \<Rightarrow> Inl e | Inr (others, h2) \<Rightarrow> Inr (steps @ others, h2)))"

text \<open>The loop of \<open>scope$lifecycle\<close> that builds \<open>methodArray\<close>.\<close>

fun lifecycle :: "nat \<Rightarrow> heap \<Rightarrow> ref \<Rightarrow> larg list \<Rightarrow> (step list) res" where
  "lifecycle n h sc [] = Inr ([], h)"
| "lifecycle n h sc (Fn i f # rest) =
     thenSteps (Inr ([(Function i, f)], h)) (\<lambda>h1. lifecycle n h1 sc rest)"
| "lifecycle n h sc [Name s] = expandPair n h sc s None"
| "lifecycle n h sc (Name s # Name m # rest) =
     thenSteps (expandPair n h sc s (Some m)) (\<lambda>h1. lifecycle n h1 sc rest)"
| "lifecycle n h sc (Name s # Fn i f # rest) =
     thenSteps (expandPair n h sc s None) (\<lambda>h1. lifecycle n h1 sc rest)"

text \<open>The function that \<open>scope$lifecycle\<close> returns, applied to \<open>options\<close>.\<close>

fun executeNthStep :: "val \<Rightarrow> step list \<Rightarrow> event list" where
  "executeNthStep options [] = []"
| "executeNthStep options ((c, f) # rest) =
     Ran c # (case f options of
                Silent \<Rightarrow> []
              | Calls err \<Rightarrow> nextStep err (rest \<noteq> []) (executeNthStep options rest))"

definition runLifecycle :: "step list \<Rightarrow> val \<Rightarrow> event list" where
  "runLifecycle methodArray options =
     (if methodArray \<noteq> [] then executeNthStep options methodArray
      else [Done Undefined])"

section \<open>What resolution leaves unchanged\<close>

text \<open>\<open>grows h h'\<close>: every object of \<open>h\<close> is still there in \<open>h'\<close> with the
  same typed fields, and the arrays of descriptors are the same. Resolution
  changes only the instance caches and the injected properties, and adds
  objects.\<close>

definition grows :: "heap \<Rightarrow> heap \<Rightarrow> bool" where
  "grows h h' \<longleftrightarrow>
     length (objs h) \<le> length (objs h') \<and> arrs h' = arrs h \<and>
     (\<forall>r < length (objs h).
        services (objs h' ! r) = services (objs h ! r) \<and>
        isFunction (objs h' ! r) = isFunction (objs h ! r) \<and>
        inject (objs h' ! r) = inject (objs h ! r) \<and>
        injectProperties (objs h' ! r) = injectProperties (objs h ! r) \<and>
        methods (objs h' ! r) = methods (objs h ! r) \<and>
        protoMethods (objs h' ! r) = protoMethods (objs h ! r) \<and>
        built (objs h' ! r) = built (objs h ! r))"

definition sound :: "requirer \<Rightarrow> bool" where
  "sound req \<longleftrightarrow> (\<forall>h sc d v h'. req h sc d = Inr (v, h') \<longrightarrow> grows h h')"

text \<open>A descriptor that \<open>construct\<close> instantiates with \<open>new\<close>: a function
  not flagged static.\<close>

definition constructible :: "heap \<Rightarrow> ref \<Rightarrow> bool" where
  "constructible h cls =
     (case getObj h cls of
        None \<Rightarrow> False
      | Some c \<Rightarrow> isFunction c \<and> \<not> truthy (getProp c ''isStatic''))"

section \<open>What a resolution returns\<close>

text \<open>\<open>madeFrom h h' d v\<close>: the value \<open>v\<close> is what the instantiator makes of
  the descriptor \<open>d\<close> between the states \<open>h\<close> and \<open>h'\<close>: when \<open>d\<close> is
  constructible, an object that did not exist in \<open>h\<close> and is recorded in \<open>h'\<close>
  as built by \<open>d\<close>; otherwise \<open>d\<close> itself.\<close>

definition madeFrom :: "heap \<Rightarrow> heap \<Rightarrow> ref \<Rightarrow> val \<Rightarrow> bool" where
  "madeFrom h h' d v =
     (if constructible h d
      then (case v of
              Ref r \<Rightarrow>
                length (objs h) \<le> r \<and> r < length (objs h') \<and>
                (case built (objs h' ! r) of None \<Rightarrow> False | Some (c, args) \<Rightarrow> c = d)
            | _ \<Rightarrow> False)
      else v = Ref d)"

text \<open>The scope other than \<open>sc\<close> that owns the singleton of the descriptor \<open>d\<close>
  requested from \<open>sc\<close>, with the position of \<open>d\<close> in its list: the first
  scope up the parent chain that bears the name \<open>d\<close> declares as its
  affinity, when its list for the service holds \<open>d\<close>.\<close>

definition owningScope :: "heap \<Rightarrow> ref \<Rightarrow> string \<Rightarrow> ref \<Rightarrow> (ref \<times> nat) option" where
  "owningScope h sc service d =
     (let aff = propOfVal h (Ref d) ''scope''
      in if \<not> truthy aff then None
         else (case findScope (walkFuel h) h (Ref sc) aff of
                 Some (Ref cur) \<Rightarrow>
                   if cur = sc then None
                   else (case serviceClassesOf h cur service of
                           Inr (Some ccs) \<Rightarrow>
                             (case indexOf ccs d of
                                None \<Rightarrow> None
                              | Some ci \<Rightarrow> Some (cur, ci))
                         | _ \<Rightarrow> None)
               | _ \<Rightarrow> None))"

text \<open>A descriptor whose resolution makes no nested resolution: an object
  that declares no dependency, no injected property and no scope
  affinity.\<close>

definition selfContained :: "heap \<Rightarrow> ref \<Rightarrow> bool" where
  "selfContained h d =
     (case getObj h d of
        None \<Rightarrow> False
      | Some c \<Rightarrow>
          inject c = None \<and> injectProperties c = None \<and> \<not> truthy (getProp c ''scope''))"

text \<open>\<open>resolvedFrom h h' sc service index d v\<close>: between the states \<open>h\<close> and
  \<open>h'\<close>, the value \<open>v\<close> is the resolution of the descriptor \<open>d\<close>, listed at
  \<open>index\<close> under \<open>service\<close> in the scope \<open>sc\<close>, by the flag of \<open>d\<close> in \<open>h\<close>.
  Flagged transient, \<open>d\<close> is instantiated. Otherwise \<open>v\<close> is truthy and is in
  the slot of \<open>sc\<close> in \<open>h'\<close>; it is the instance that was in that slot in
  \<open>h\<close>, if any; if none, it is what is instantiated from \<open>d\<close>, or, when
  another scope owns the singleton, the instance of the slot of that scope
  (instantiated from \<open>d\<close> if that slot was empty too), which holds it in
  \<open>h'\<close>.\<close>

definition resolvedFrom ::
  "heap \<Rightarrow> heap \<Rightarrow> ref \<Rightarrow> string \<Rightarrow> nat \<Rightarrow> ref \<Rightarrow> val \<Rightarrow> bool" where
  "resolvedFrom h h' sc service index d v =
     (if truthy (propOfVal h (Ref d) ''transient'') then madeFrom h h' d v
      else truthy v \<and> cached h' sc service index = v \<and>
           (if truthy (cached h sc service index) then v = cached h sc service index
            else (case owningScope h sc service d of
                    None \<Rightarrow> madeFrom h h' d v
                  | Some (cur, ci) \<Rightarrow>
                      cached h' cur service ci = v \<and>
                      (if truthy (cached h cur service ci)
                       then v = cached h cur service ci
                       else madeFrom h h' d v))))"

section \<open>Example heaps\<close>

text \<open>A scope \<open>app\<close> (object 0) with a singleton class (object 1) under
  \<open>singleton\<close>, a transient class (object 2) under \<open>service\<close>, and a plain
  object flagged transient (object 3) under \<open>config\<close>; under \<open>both\<close>, the
  transient class then the singleton class.\<close>

definition appHeap :: heap where
  "appHeap =
     \<lparr>objs =
        [plainObject\<lparr>props := [''scopeName'' \<mapsto> Str ''app'', ''parentScope'' \<mapsto> Undefined],
                     services := Some [(''app'', 0), (''singleton'', 1),
                                       (''service'', 2), (''config'', 3),
                                       (''both'', 4)]\<rparr>,
         functionObject,
         functionObject\<lparr>props := [''transient'' \<mapsto> Bool True]\<rparr>,
         plainObject\<lparr>props := [''transient'' \<mapsto> Bool True]\<rparr>],
      arrs = [[0], [1], [2], [3], [2, 1]],
      initLog = [], functionSlots = Map.empty\<rparr>"

text \<open>The result of a call that returned, and the constructor call recorded in
  an object of the state it left.\<close>

definition returned :: "'a res \<Rightarrow> 'a option" where
  "returned r = (case r of Inl e \<Rightarrow> None | Inr (v, h) \<Rightarrow> Some v)"

definition builtAfter :: "'a res \<Rightarrow> ref \<Rightarrow> (ref \<times> val list) option" where
  "builtAfter r i =
     (case r of
        Inl e \<Rightarrow> None
      | Inr (v, h) \<Rightarrow> (case getObj h i of None \<Rightarrow> None | Some ob \<Rightarrow> built ob))"

text \<open>A scope \<open>the-scope\<close> (object 0) with a transient class that declares
  \<open>inject\<close> (object 1) under \<open>service\<close>, a singleton class (object 2) under
  \<open>singleton\<close>, a transient class (object 3) under \<open>other-service\<close>, and an
  options object (object 4).\<close>

definition depHeap :: heap where
  "depHeap =
     \<lparr>objs =
        [plainObject\<lparr>props := [''scopeName'' \<mapsto> Str ''the-scope'',
                               ''parentScope'' \<mapsto> Undefined],
                     services := Some [(''the-scope'', 0), (''service'', 1),
                                       (''singleton'', 2), (''other-service'', 3)]\<rparr>,
         functionObject\<lparr>props := [''scope'' \<mapsto> Str ''the-scope'',
                                  ''transient'' \<mapsto> Bool True],
                        inject := Some [''singleton'', ''other-service'', ''the-scope'']\<rparr>,
         functionObject\<lparr>props := [''scope'' \<mapsto> Str ''the-scope'']\<rparr>,
         functionObject\<lparr>props := [''transient'' \<mapsto> Bool True]\<rparr>,
         plainObject],
      arrs = [[0], [1], [2], [3]],
      initLog = [], functionSlots = Map.empty\<rparr>"

section \<open>Runs of the sequencer\<close>

text \<open>The services that expose the method, and whether the step of a service
  lets the chain go on: the service does not expose the method, or its method
  calls back with no (truthy) error.\<close>

definition exposing :: "heap \<Rightarrow> string \<Rightarrow> val list \<Rightarrow> val list" where
  "exposing h method svcs = filter (\<lambda>s. methodOf h s method \<noteq> None) svcs"

definition succeeds :: "heap \<Rightarrow> string \<Rightarrow> val \<Rightarrow> val \<Rightarrow> bool" where
  "succeeds h method options s =
     (case methodOf h s method of
        None \<Rightarrow> True
      | Some f \<Rightarrow> (case f options of Calls err \<Rightarrow> \<not> truthy err | Silent \<Rightarrow> False))"

text \<open>The run of \<open>callService\<close> on the instances \<open>svcs\<close>.\<close>

definition serviceRun :: "heap \<Rightarrow> string \<Rightarrow> val \<Rightarrow> val list \<Rightarrow> event list" where
  "serviceRun h method options svcs =
     (if svcs \<noteq> [] then callNthService h method options svcs else [Done Undefined])"

text \<open>A scope \<open>shell\<close> (object 0); a transient class with a method \<open>method\<close>
  (object 1), a singleton class without it (object 2), a singleton class with
  it (object 3), and a transient class whose \<open>method\<close> passes the error
  \<open>boom\<close> to its callback (object 4). Under \<open>service\<close>: 1, 2, 3. Under
  \<open>failing\<close>: 1, 4, 3. Under \<open>pair\<close>: 1, 3.\<close>

definition svcHeap :: heap where
  "svcHeap =
     \<lparr>objs =
        [plainObject\<lparr>props := [''scopeName'' \<mapsto> Str ''shell'', ''parentScope'' \<mapsto> Undefined],
                     services := Some [(''shell'', 0), (''service'', 1),
                                       (''failing'', 2), (''pair'', 3)]\<rparr>,
         functionObject\<lparr>props := [''transient'' \<mapsto> Bool True],
                        protoMethods := [''method'' \<mapsto> (\<lambda>options. Calls Undefined)]\<rparr>,
         functionObject,
         functionObject\<lparr>protoMethods := [''method'' \<mapsto> (\<lambda>options. Calls Undefined)]\<rparr>,
         functionObject\<lparr>props := [''transient'' \<mapsto> Bool True],
                        protoMethods := [''method'' \<mapsto> (\<lambda>options. Calls (Str ''boom''))]\<rparr>],
      arrs = [[0], [1, 2, 3], [1, 4, 3], [1, 3]],
      initLog = [], functionSlots = Map.empty\<rparr>"

text \<open>The step calls back with no (truthy) error.\<close>

definition stepSucceeds :: "val \<Rightarrow> step \<Rightarrow> bool" where
  "stepSucceeds options st =
     (case snd st options of Calls err \<Rightarrow> \<not> truthy err | Silent \<Rightarrow> False)"

text \<open>A list of arguments of \<open>lifecycle\<close> made of whole items: functions, and
  service names each followed by one more argument.\<close>

fun aligned :: "larg list \<Rightarrow> bool" where
  "aligned [] = True"
| "aligned (Fn i f # rest) = aligned rest"
| "aligned [Name s] = False"
| "aligned (Name s # x # rest) = aligned rest"

section \<open>The unsatisfiable scope affinity\<close>

text \<open>The descriptor \<open>cls\<close> declares an affinity (a truthy \<open>scope\<close> property)
  that the requesting scope \<open>sc\<close> cannot satisfy for \<open>service\<close>: the name of
  \<open>sc\<close> is not the affinity, and the walk up the parent chain ends with no
  scope of that name, or at a scope of that name whose list for \<open>service\<close>
  does not hold \<open>cls\<close>.\<close>

definition unsatisfiable :: "heap \<Rightarrow> ref \<Rightarrow> string \<Rightarrow> ref \<Rightarrow> bool" where
  "unsatisfiable h sc service cls =
     (let aff = propOfVal h (Ref cls) ''scope''
      in truthy aff \<and> propOfVal h (Ref sc) ''scopeName'' \<noteq> aff \<and>
         (case findScope (walkFuel h) h (Ref sc) aff of
            None \<Rightarrow> False
          | Some (Ref c) \<Rightarrow>
              c \<noteq> sc \<and>
              (case serviceClassesOf h c service of
                 Inr (Some ccs) \<Rightarrow> indexOf ccs cls = None
               | _ \<Rightarrow> False)
          | Some cur \<Rightarrow> \<not> truthy cur))"

text \<open>A scope \<open>outer\<close> (object 0) and a scope \<open>inner\<close> (object 1) whose
  parent it is; a singleton class with the affinity \<open>outer\<close> (object 2) and
  one with the affinity \<open>nowhere\<close> (object 3). \<open>inner\<close> lists class 2 under
  \<open>svc\<close>, \<open>local\<close> and \<open>own\<close>, and class 3 under \<open>lost\<close>; \<open>outer\<close> lists
  class 2 under \<open>svc\<close>, only class 3 under \<open>local\<close>, class 2 again under
  \<open>alias\<close>, and has no list under \<open>own\<close> or \<open>lost\<close>.\<close>

definition nestedHeap :: heap where
  "nestedHeap =
     \<lparr>objs =
        [plainObject\<lparr>props := [''scopeName'' \<mapsto> Str ''outer'', ''parentScope'' \<mapsto> Undefined],
                     services := Some [(''outer'', 0), (''svc'', 1), (''local'', 2),
                                       (''alias'', 5)]\<rparr>,
         plainObject\<lparr>props := [''scopeName'' \<mapsto> Str ''inner'', ''parentScope'' \<mapsto> Ref 0],
                     services := Some [(''outer'', 0), (''svc'', 1), (''local'', 3),
                                       (''lost'', 2), (''own'', 3), (''inner'', 4)]\<rparr>,
         functionObject\<lparr>props := [''scope'' \<mapsto> Str ''outer'']\<rparr>,
         functionObject\<lparr>props := [''scope'' \<mapsto> Str ''nowhere'']\<rparr>],
      arrs = [[0], [2], [3], [2], [1], [2]],
      initLog = [], functionSlots = Map.empty\<rparr>"

text \<open>The state that a call left (the empty heap when it raised).\<close>

definition heapAfter :: "'a res \<Rightarrow> heap" where
  "heapAfter r =
     (case r of
        Inl e \<Rightarrow> \<lparr>objs = [], arrs = [], initLog = [], functionSlots = Map.empty\<rparr>
      | Inr (v, h) \<Rightarrow> h)"

text \<open>The state in which \<open>getServices\<close> resolves the \<open>i\<close>-th descriptor of
  the list \<open>cs\<close>: the state that the resolution of the descriptors before it
  left.\<close>

definition stateAt :: "nat \<Rightarrow> heap \<Rightarrow> ref \<Rightarrow> string \<Rightarrow> val \<Rightarrow> ref list \<Rightarrow> nat \<Rightarrow> heap" where
  "stateAt n h sc service options cs i =
     heapAfter (mapServices (\<lambda>h' sc' d. require n h' sc' d Undefined)
                  h sc service options 0 (take i cs))"

section \<open>The scope as a service\<close>








section \<open>Frame and cache lemmas\<close>

lemma nth_upd:
  "j < length xs \<Longrightarrow> xs[i := x] ! j = (if i = j then x else xs ! j)"
  by (cases "i = j") auto

lemma grows_refl: "grows h h"
  by (simp add: grows_def)

lemma grows_trans: "grows h h1 \<Longrightarrow> grows h1 h2 \<Longrightarrow> grows h h2"
  by (auto simp: grows_def)

lemma grows_setProp: "grows h (setProp h r k v)"
  by (auto simp: grows_def setProp_def updObj_def nth_upd)

lemma grows_allocInstances: "grows h (allocInstances h r s)"
  by (auto simp: grows_def allocInstances_def updObj_def nth_upd split: option.splits)

lemma grows_setInstance: "grows h (setInstance h r s i v)"
  by (auto simp: grows_def setInstance_def updObj_def nth_upd)

lemma grows_newInstance: "newInstance h cls args = (r, h') \<Longrightarrow> grows h h'"
  by (auto simp: grows_def newInstance_def nth_append plainObject_def)

lemma sound_grows: "sound req \<Longrightarrow> req h sc d = Inr (v, h') \<Longrightarrow> grows h h'"
  by (auto simp: sound_def)

lemma grows_requireDependency:
  "sound req \<Longrightarrow> requireDependency req h sc ds = Inr (vs, h') \<Longrightarrow> grows h h'"
proof (induction ds arbitrary: h vs)
  case Nil
  then show ?case by (simp add: grows_refl)
next
  case (Cons d ds)
  from Cons.prems(2) obtain v h1 vs' where r: "req h sc d = Inr (v, h1)"
    and i: "requireDependency req h1 sc ds = Inr (vs', h')"
    by (auto split: sum.splits)
  from sound_grows[OF Cons.prems(1) r] Cons.IH[OF Cons.prems(1) i]
  show ?case by (rule grows_trans)
qed

lemma grows_injectProperty:
  "sound req \<Longrightarrow> injectProperty req h sc inst ps = Inr (u, h') \<Longrightarrow> grows h h'"
proof (induction ps arbitrary: h)
  case Nil
  then show ?case by (simp add: grows_refl)
next
  case (Cons p ps)
  obtain k s where p: "p = (k, s)" by (cases p)
  from Cons.prems obtain v h1 where r: "req h sc s = Inr (v, h1)"
    and i: "injectProperty req (setProp h1 inst k v) sc inst ps = Inr (u, h')"
    by (auto simp: p split: sum.splits)
  from r Cons.prems(1) have "grows h h1" by (auto simp: sound_def)
  moreover have "grows h1 (setProp h1 inst k v)" by (rule grows_setProp)
  moreover from Cons.IH[OF Cons.prems(1) i] have "grows (setProp h1 inst k v) h'" .
  ultimately show ?case by (blast intro: grows_trans)
qed

lemma grows_constructorArguments:
  "sound req \<Longrightarrow> constructorArguments req h sc c options = Inr (args, h') \<Longrightarrow> grows h h'"
  by (auto simp: constructorArguments_def grows_refl split: option.splits sum.splits
      dest: grows_requireDependency)

text \<open>The first half of construct: the instance and the state before
  property injection.\<close>

lemma construct_cases:
  assumes "construct req h sc cls options = Inr (v, h')"
  obtains c inst h2 where "getObj h cls = Some c" and "v = Ref inst"
    and "(isFunction c \<and> \<not> truthy (getProp c ''isStatic'') \<and>
          (\<exists>args h1. constructorArguments req h sc c options = Inr (args, h1) \<and>
             newInstance h1 cls args = (inst, h2)))
         \<or> (\<not> (isFunction c \<and> \<not> truthy (getProp c ''isStatic'')) \<and> inst = cls \<and> h2 = h)"
    and "(injectProperties c = None \<and> h' = h2)
         \<or> (\<exists>ps. injectProperties c = Some ps \<and>
               injectProperty req h2 sc inst ps = Inr ((), h'))"
  using assms unfolding construct_def
  by (auto split: option.splits sum.splits if_splits prod.splits)

lemma grows_construct:
  assumes s: "sound req" and c: "construct req h sc cls options = Inr (v, h')"
  shows "grows h h'"
proof -
  from c obtain c' inst h2 where
    a: "(isFunction c' \<and> \<not> truthy (getProp c' ''isStatic'') \<and>
          (\<exists>args h1. constructorArguments req h sc c' options = Inr (args, h1) \<and>
             newInstance h1 cls args = (inst, h2)))
         \<or> (\<not> (isFunction c' \<and> \<not> truthy (getProp c' ''isStatic'')) \<and> inst = cls \<and> h2 = h)"
    and b: "(injectProperties c' = None \<and> h' = h2)
         \<or> (\<exists>ps. injectProperties c' = Some ps \<and>
               injectProperty req h2 sc inst ps = Inr ((), h'))"
    by (rule construct_cases)
  from a have "grows h h2"
    by (auto simp: grows_refl dest: grows_constructorArguments[OF s] grows_newInstance
        intro: grows_trans)
  moreover from b have "grows h2 h'"
    by (auto simp: grows_refl dest: grows_injectProperty[OF s])
  ultimately show ?thesis by (rule grows_trans)
qed


lemma construct_truthy: "construct req h sc cls options = Inr (v, h') \<Longrightarrow> truthy v"
  by (erule construct_cases) simp

lemma grows_length: "grows h h' \<Longrightarrow> r < length (objs h) \<Longrightarrow> r < length (objs h')"
  by (simp add: grows_def)

lemma length_setInstance [simp]: "length (objs (setInstance h r s i v)) = length (objs h)"
  by (simp add: setInstance_def updObj_def)

lemma length_allocInstances [simp]: "length (objs (allocInstances h r s)) = length (objs h)"
  by (simp add: allocInstances_def updObj_def)

lemma sharedSlots_setInstance [simp]:
  "sharedSlots (setInstance h r s i v) r' s' = sharedSlots h r' s'"
  by (auto simp: sharedSlots_def setInstance_def updObj_def getObj_def nth_upd
      split: option.splits)

lemma sharedSlots_allocInstances [simp]:
  "sharedSlots (allocInstances h r s) r' s' = sharedSlots h r' s'"
  by (auto simp: sharedSlots_def allocInstances_def updObj_def getObj_def nth_upd
      inheritedName_def split: option.splits)

text \<open>A write into the cache is read back from the same place: the same
  slot of the same scope, or the same slot of the inherited function.\<close>

lemma cached_setInstance:
  "cached (setInstance h r s i v) r' s' i' =
     (if s = s' \<and> i = i' \<and>
         (sharedSlots h r s \<and> sharedSlots h r' s
          \<or> \<not> sharedSlots h r s \<and> r = r' \<and> r < length (objs h))
      then v else cached h r' s' i')"
proof (cases "sharedSlots h r s")
  case True
  then have "setInstance h r s i v =
      h\<lparr>functionSlots := (functionSlots h)
             (s \<mapsto> (case functionSlots h s of None \<Rightarrow> Map.empty | Some slots \<Rightarrow> slots)
                      (i \<mapsto> v))\<rparr>"
    by (simp add: setInstance_def)
  with True show ?thesis
    by (auto simp: cached_def sharedSlots_def getObj_def slotOf_def split: option.splits)
next
  case False
  then have e: "setInstance h r s i v =
      updObj h r (\<lambda>ob. ob\<lparr>instances := (instances ob)
             (s \<mapsto> (case instances ob s of None \<Rightarrow> Map.empty | Some slots \<Rightarrow> slots)
                      (i \<mapsto> v))\<rparr>)"
    by (simp add: setInstance_def)
  have "sharedSlots (setInstance h r s i v) r' s' = sharedSlots h r' s'" by simp
  with False show ?thesis unfolding cached_def e
    by (auto simp: sharedSlots_def updObj_def getObj_def nth_upd slotOf_def
        split: option.splits)
qed

lemma cached_setInstance_same:
  "r < length (objs h) \<Longrightarrow> cached (setInstance h r s i v) r s i = v"
  by (simp add: cached_setInstance)

lemma cached_allocInstances:
  "cached (allocInstances h r s) r' s' i' = cached h r' s' i'"
proof -
  have "sharedSlots (allocInstances h r s) r' s' = sharedSlots h r' s'" by simp
  then show ?thesis unfolding cached_def
    by (auto simp: allocInstances_def updObj_def getObj_def nth_upd slotOf_def
        split: option.splits)
qed

lemma functionSlots_allocInstances [simp]:
  "functionSlots (allocInstances h r s) = functionSlots h"
  by (simp add: allocInstances_def updObj_def)

lemma getObj_Some: "getObj h r = Some ob \<longleftrightarrow> r < length (objs h) \<and> ob = objs h ! r"
  by (auto simp: getObj_def)

lemma serviceClassesOf_valid: "serviceClassesOf h r s = Inr x \<Longrightarrow> r < length (objs h)"
  by (auto simp: serviceClassesOf_def getObj_def split: option.splits if_splits)

lemma fromOwningScope_post:
  assumes f: "fromOwningScope req h sc service index options cls cur = Some (Inr (v, h'))"
    and s: "sound req" and sc: "sc < length (objs h)" and ne: "cur \<noteq> sc"
  shows "grows h h' \<and> truthy v \<and> cached h' sc service index = v \<and>
         (\<exists>ccs ci. serviceClassesOf h cur service = Inr (Some ccs) \<and>
            indexOf ccs cls = Some ci \<and> cached h' cur service ci = v)"
proof -
  from f obtain ccs ci where ccs: "serviceClassesOf h cur service = Inr (Some ccs)"
    and ci: "indexOf ccs cls = Some ci"
    by (auto simp: fromOwningScope_def split: sum.splits option.splits)
  from ccs have cur: "cur < length (objs h)" by (rule serviceClassesOf_valid)
  define h1 where "h1 = allocInstances h cur service"
  define cachedInst where "cachedInst = cached h1 cur service ci"
  have g1: "grows h h1" by (simp add: h1_def grows_allocInstances)
  have o: "getObj h1 cur = Some (objs h1 ! cur)" using cur by (simp add: getObj_def h1_def)
  show ?thesis
  proof (cases "truthy cachedInst")
    case True
    with f ccs ci o have v: "v = cachedInst" and h': "h' = setInstance h1 sc service index cachedInst"
      by (auto simp: fromOwningScope_def Let_def h1_def cachedInst_def)
    have "grows h1 h'" by (simp add: h' grows_setInstance)
    with g1 have "grows h h'" by (rule grows_trans)
    moreover have "cached h' sc service index = v"
      using sc by (simp add: h' v cached_setInstance h1_def)
    moreover have "cached h' cur service ci = v"
      using cur ne by (simp add: h' v cached_setInstance h1_def cachedInst_def)
    ultimately show ?thesis using True v ccs ci by auto
  next
    case False
    with f ccs ci o obtain h2 where c: "construct req h1 cur cls options = Inr (v, h2)"
      and h': "h' = setInstance (setInstance h2 sc service index v) cur service ci v"
      by (auto simp: fromOwningScope_def Let_def h1_def cachedInst_def split: sum.splits)
    from grows_construct[OF s c] have g2: "grows h1 h2" .
    have "grows h2 h'" unfolding h' by (blast intro: grows_trans grows_setInstance)
    with g1 g2 have g: "grows h h'" by (blast intro: grows_trans)
    have l: "sc < length (objs h2)" "cur < length (objs h2)"
      using g1 g2 sc cur by (auto dest: grows_length)
    have "cached h' sc service index = v"
      using l by (simp add: h' cached_setInstance)
    moreover have "cached h' cur service ci = v"
      using l by (simp add: h' cached_setInstance)
    ultimately show ?thesis using g construct_truthy[OF c] ccs ci by auto
  qed
qed


lemma singletonOf_cases:
  assumes g: "singletonOf req h0 s sc service index options cls = Inr (v, h')"
  obtains
    (here) h2 where "construct req h0 sc cls options = Inr (v, h2)"
      and "h' = setInstance h2 sc service index v"
  | (there) cur where "cur \<noteq> sc"
      and "fromOwningScope req h0 sc service index options cls cur = Some (Inr (v, h'))"
      and "truthy (propOfVal h0 (Ref cls) ''scope'')"
proof -
  from g
  have "(\<exists>h2. construct req h0 sc cls options = Inr (v, h2)
              \<and> h' = setInstance h2 sc service index v)
          \<or> (\<exists>cur. cur \<noteq> sc \<and>
                fromOwningScope req h0 sc service index options cls cur = Some (Inr (v, h')) \<and>
                truthy (propOfVal h0 (Ref cls) ''scope''))"
    by (auto simp: singletonOf_def Let_def split: if_splits option.splits sum.splits val.splits)
  then show ?thesis using here there by blast
qed

lemma singletonOf_post:
  assumes g: "singletonOf req h0 s sc service index options cls = Inr (v, h')"
    and s: "sound req" and sc: "sc < length (objs h0)"
  shows "grows h0 h' \<and> truthy v \<and> cached h' sc service index = v"
  using g
proof (cases rule: singletonOf_cases)
  case (here h2)
  from grows_construct[OF s here(1)] have g2: "grows h0 h2" .
  then have "sc < length (objs h2)" using sc by (auto dest: grows_length)
  then have "cached h' sc service index = v"
    by (simp add: here(2) cached_setInstance)
  moreover have "grows h0 h'" unfolding here(2)
    using g2 by (blast intro: grows_trans grows_setInstance)
  ultimately show ?thesis using construct_truthy[OF here(1)] by simp
next
  case (there cur)
  from fromOwningScope_post[OF there(2) s sc there(1)]
  show ?thesis by auto
qed

lemma getSingleton_cases:
  assumes g: "getSingleton req h sc service index options = Inr (v, h')"
  obtains
    (hit) "sc < length (objs h)" and "truthy (cached h sc service index)"
      and "v = cached h sc service index" and "h' = allocInstances h sc service"
  | (local) cs h2 where "sc < length (objs h)"
      and "\<not> truthy (cached h sc service index)"
      and "serviceClassesOf h sc service = Inr (Some cs)" and "index < length cs"
      and "construct req (allocInstances h sc service) sc (cs ! index) options = Inr (v, h2)"
      and "h' = setInstance h2 sc service index v"
  | (owner) cs cur where "sc < length (objs h)"
      and "\<not> truthy (cached h sc service index)"
      and "serviceClassesOf h sc service = Inr (Some cs)" and "index < length cs"
      and "cur \<noteq> sc"
      and "fromOwningScope req (allocInstances h sc service) sc service index options
             (cs ! index) cur = Some (Inr (v, h'))"
      and "truthy (propOfVal (allocInstances h sc service) (Ref (cs ! index)) ''scope'')"
  | (inherited) cls where "sc < length (objs h)"
      and "\<not> truthy (cached h sc service index)"
      and "serviceClassesOf h sc service = Inr None" and "functionLength service \<noteq> None"
      and "slotOf (functionSlots h) service index = Ref cls"
      and "singletonOf req (allocInstances h sc service) (objs h ! sc) sc service index
             options cls = Inr (v, h')"
  | (primitive) "sc < length (objs h)"
      and "serviceClassesOf h sc service = Inr None" and "functionLength service \<noteq> None"
      and "h' = setInstance (allocInstances h sc service) sc service index v"
proof -
  from g obtain scs where scs: "serviceClassesOf h sc service = Inr scs"
    by (auto simp: getSingleton_def split: sum.splits)
  then have sc: "sc < length (objs h)" by (rule serviceClassesOf_valid)
  then have o: "getObj h sc = Some (objs h ! sc)" by (simp add: getObj_def)
  show ?thesis
  proof (cases "truthy (cached h sc service index)")
    case True
    with g scs o have "v = cached h sc service index" "h' = allocInstances h sc service"
      by (auto simp: getSingleton_def Let_def split: if_splits)
    with sc True show ?thesis by (rule hit)
  next
    case False
    show ?thesis
    proof (cases scs)
      case (Some cs)
      with g scs o False have i: "index < length cs"
        and so: "singletonOf req (allocInstances h sc service) (objs h ! sc) sc service index
                   options (cs ! index) = Inr (v, h')"
        by (auto simp: getSingleton_def Let_def split: if_splits)
      from so show ?thesis
      proof (cases rule: singletonOf_cases)
        case (here h2)
        with sc False scs Some i show ?thesis using local by blast
      next
        case (there cur)
        with sc False scs Some i show ?thesis using owner by blast
      qed
    next
      case None
      with g scs o False obtain len where len: "functionLength service = Some len"
        by (auto simp: getSingleton_def Let_def split: if_splits option.splits)
      from g scs o False None len
      have "(\<exists>cls. slotOf (functionSlots h) service index = Ref cls \<and>
               singletonOf req (allocInstances h sc service) (objs h ! sc) sc service index
                 options cls = Inr (v, h'))
            \<or> h' = setInstance (allocInstances h sc service) sc service index v"
        by (auto simp: getSingleton_def Let_def split: if_splits val.splits)
      then show ?thesis
        using sc False scs None len inherited primitive by blast
    qed
  qed
qed

lemma getSingleton_post:
  assumes g: "getSingleton req h sc service index options = Inr (v, h')" and s: "sound req"
  shows "grows h h' \<and> cached h' sc service index = v \<and>
         (serviceClassesOf h sc service \<noteq> Inr None \<longrightarrow> truthy v)"
  using g
proof (cases rule: getSingleton_cases)
  case hit
  then show ?thesis by (simp add: grows_allocInstances cached_allocInstances)
next
  case (local cs h2)
  from grows_construct[OF s local(5)] have g2: "grows (allocInstances h sc service) h2" .
  then have "sc < length (objs h2)" using local(1) by (auto dest: grows_length)
  then have "cached h' sc service index = v"
    by (simp add: local(6) cached_setInstance)
  moreover have "grows h h'" unfolding local(6)
    using g2 by (blast intro: grows_trans grows_allocInstances grows_setInstance)
  ultimately show ?thesis using construct_truthy[OF local(5)] by simp
next
  case (owner cs cur)
  from fromOwningScope_post[OF owner(6) s _ owner(5)] owner(1)
  show ?thesis by (auto intro: grows_trans grows_allocInstances)
next
  case (inherited cls)
  from singletonOf_post[OF inherited(6) s] inherited(1,3)
  show ?thesis by (auto intro: grows_trans grows_allocInstances)
next
  case primitive
  then show ?thesis
    by (auto simp: cached_setInstance intro: grows_trans grows_allocInstances grows_setInstance)
qed

lemma getSingleton_truthy:
  assumes g: "getSingleton req h sc service index options = Inr (v, h')" and s: "sound req"
    and cs: "serviceClassesOf h sc service = Inr (Some cs)"
  shows "truthy v"
  using getSingleton_post[OF g s] cs by simp

lemma grows_requireInherited:
  assumes r: "requireInherited req h sc service options = Inr (v, h')" and s: "sound req"
  shows "grows h h'"
  using r unfolding requireInherited_def
  by (auto simp: grows_refl Let_def split: option.splits if_splits val.splits
      dest: getSingleton_post[OF _ s] grows_construct[OF s])

lemma sound_require: "sound (\<lambda>h sc d. require n h sc d options)"
proof (induction n arbitrary: options)
  case 0
  show ?case by (simp add: sound_def)
next
  case (Suc n)
  show ?case unfolding sound_def
  proof (intro allI impI)
    fix h sc d v h'
    assume r: "require (Suc n) h sc d options = Inr (v, h')"
    then show "grows h h'"
      by (auto simp: grows_refl split: sum.splits option.splits if_splits
          dest: getSingleton_post[OF _ Suc] grows_construct[OF Suc]
            grows_requireInherited[OF _ Suc])
  qed
qed

lemma grows_require: "require n h sc d options = Inr (v, h') \<Longrightarrow> grows h h'"
  using sound_require[of n options] by (auto simp: sound_def)

lemma serviceClassesOf_grows:
  "grows h h' \<Longrightarrow> serviceClassesOf h sc s = Inr x \<Longrightarrow> serviceClassesOf h' sc s = Inr x"
  by (auto simp: serviceClassesOf_def getObj_def getArr_def grows_def
      split: option.splits if_splits)

lemma getSingleton_hit:
  assumes cs: "serviceClassesOf h sc service = Inr (Some cs)"
    and c: "truthy (cached h sc service index)"
  shows "getSingleton req h sc service index options =
           Inr (cached h sc service index, allocInstances h sc service)"
proof -
  from cs have sc: "sc < length (objs h)" by (rule serviceClassesOf_valid)
  then have o: "getObj h sc = Some (objs h ! sc)" by (simp add: getObj_def)
  from cs c o show ?thesis by (auto simp: getSingleton_def Let_def)
qed

lemma construct_fresh:
  assumes c: "construct req h sc cls options = Inr (v, h')" and s: "sound req"
    and k: "constructible h cls"
  shows "\<exists>r. v = Ref r \<and> length (objs h) \<le> r \<and> r < length (objs h')"
proof -
  from c obtain c' inst h2 where o: "getObj h cls = Some c'" and v: "v = Ref inst"
    and a: "(isFunction c' \<and> \<not> truthy (getProp c' ''isStatic'') \<and>
          (\<exists>args h1. constructorArguments req h sc c' options = Inr (args, h1) \<and>
             newInstance h1 cls args = (inst, h2)))
         \<or> (\<not> (isFunction c' \<and> \<not> truthy (getProp c' ''isStatic'')) \<and> inst = cls \<and> h2 = h)"
    and b: "(injectProperties c' = None \<and> h' = h2)
         \<or> (\<exists>ps. injectProperties c' = Some ps \<and>
               injectProperty req h2 sc inst ps = Inr ((), h'))"
    by (rule construct_cases)
  from a k o obtain args h1 where ca: "constructorArguments req h sc c' options = Inr (args, h1)"
    and n: "newInstance h1 cls args = (inst, h2)"
    by (auto simp: constructible_def)
  from grows_constructorArguments[OF s ca] have "length (objs h) \<le> length (objs h1)"
    by (simp add: grows_def)
  moreover from n have "inst = length (objs h1)" "length (objs h2) = Suc (length (objs h1))"
    by (auto simp: newInstance_def)
  moreover from b have "grows h2 h'"
    by (auto simp: grows_refl dest: grows_injectProperty[OF s])
  then have "length (objs h2) \<le> length (objs h')" by (simp add: grows_def)
  ultimately show ?thesis using v by auto
qed

lemmas heap_defs = getObj_def getArr_def updObj_def getProp_def propOfVal_def setProp_def
  walkFuel_def
  newInstance_def plainObject_def functionObject_def cached_def allocInstances_def
  setInstance_def serviceClassesOf_def constructible_def sharedSlots_def slotOf_def
  inheritedName_def functionLength_def protoFunctions_def

lemmas code_defs = constructorArguments_def construct_def fromOwningScope_def
  getSingleton_def singletonOf_def requireInherited_def getServiceInstance_def
  getServices_def Let_def

section \<open>Registration and construction lemmas\<close>

lemma map_of_replaceKey:
  "map_of (replaceKey k v kvs) k' =
     (if k' = k \<and> map_of kvs k \<noteq> None then Some v else map_of kvs k')"
  by (induction kvs) auto

lemma map_of_insertIndexKey:
  "map_of kvs k = None \<Longrightarrow>
   map_of (insertIndexKey n k v kvs) k' = (if k' = k then Some v else map_of kvs k')"
  by (induction kvs) (auto split: option.splits if_splits)

lemma map_of_setKey: "map_of (setKey k v kvs) k' = (if k' = k then Some v else map_of kvs k')"
  by (auto simp: setKey_def map_of_replaceKey map_of_insertIndexKey map_add_def
      split: option.splits)

lemma getObj_initializeService [simp]: "getObj (initializeService h sc cls) r = getObj h r"
  by (simp add: initializeService_def getObj_def split: option.splits)

lemma getArr_initializeService [simp]: "getArr (initializeService h sc cls) a = getArr h a"
  by (simp add: initializeService_def getArr_def split: option.splits)

lemma serviceClassesOf_initializeService [simp]:
  "serviceClassesOf (initializeService h sc' cls) sc name = serviceClassesOf h sc name"
  by (simp add: serviceClassesOf_def split: option.splits)

lemma register_appends:
  assumes old: "serviceClassesOf h sc name = Inr old" and r: "register h sc name cls = Inr h1"
  shows "serviceClassesOf h1 sc name =
           Inr (Some ((case old of None \<Rightarrow> [] | Some cs \<Rightarrow> cs) @ [cls]))"
proof -
  from old obtain s svcs where s: "getObj h sc = Some s" and svcs: "services s = Some svcs"
    by (auto simp: serviceClassesOf_def split: option.splits)
  from s have sc: "sc < length (objs h)" by (simp add: getObj_Some)
  show ?thesis
  proof (cases "map_of svcs name")
    case None
    with old s svcs have o: "old = None" by (auto simp: serviceClassesOf_def)
    define h0 where "h0 = updObj (snd (newArray h [cls])) sc
        (\<lambda>ob. ob\<lparr>services := Some (setKey name (length (arrs h)) svcs)\<rparr>)"
    from r s svcs None have "name \<noteq> ''__proto__''"
      by (auto simp: register_def inheritedName_def split: if_splits)
    then have "serviceClassesOf h0 sc name = Inr (Some [cls])"
      using sc by (simp add: h0_def serviceClassesOf_def newArray_def updObj_def getObj_def
          getArr_def map_of_setKey)
    moreover from r s svcs None have "h1 = h0 \<or> h1 = initializeService h0 sc cls"
      by (auto simp: register_def Let_def h0_def newArray_def split: if_splits option.splits)
    ultimately show ?thesis using o by auto
  next
    case (Some a)
    with old s svcs have "\<exists>cs. old = Some cs \<and> getArr h a = Some cs"
      by (cases "getArr h a") (auto simp: serviceClassesOf_def split: if_splits)
    then obtain cs where o: "old = Some cs" and a: "getArr h a = Some cs" by blast
    define h0 where "h0 = h\<lparr>arrs := (arrs h)[a := arrs h ! a @ [cls]]\<rparr>"
    from old s svcs Some have np: "name \<noteq> ''__proto__''"
      by (auto simp: serviceClassesOf_def split: if_splits)
    have "serviceClassesOf h0 sc name = Inr (Some (cs @ [cls]))"
      using s svcs Some a np
      by (auto simp: h0_def serviceClassesOf_def getObj_def getArr_def split: if_splits)
    moreover from r s svcs Some have "h1 = h0 \<or> h1 = initializeService h0 sc cls"
      by (auto simp: register_def Let_def h0_def split: if_splits option.splits)
    ultimately show ?thesis using o by auto
  qed
qed

lemma require_last:
  "serviceClassesOf h sc name = Inr (Some cs) \<Longrightarrow> cs \<noteq> [] \<Longrightarrow>
   require (Suc n) h sc name options =
     getServiceInstance (\<lambda>h' sc' d. require n h' sc' d Undefined)
       h sc name options (last cs) (length cs - 1)"
  by (simp add: getServiceInstance_def split: option.splits)

lemma requireDependency_order:
  "requireDependency req h sc ds = Inr (vs, h') \<Longrightarrow>
   length vs = length ds \<and>
   (\<forall>i < length ds. \<exists>hi hi'. req hi sc (ds ! i) = Inr (vs ! i, hi'))"
proof (induction ds arbitrary: h vs)
  case Nil
  then show ?case by simp
next
  case (Cons d ds)
  from Cons.prems obtain v h1 vs' where
    g: "req h sc d = Inr (v, h1)"
    and m: "requireDependency req h1 sc ds = Inr (vs', h')"
    and vs: "vs = v # vs'"
    by (auto split: sum.splits)
  from Cons.IH[OF m] have l: "length vs' = length ds"
    and r: "\<forall>i < length ds. \<exists>hi hi'. req hi sc (ds ! i) = Inr (vs' ! i, hi')"
    by auto
  have "\<exists>hi hi'. req hi sc ((d # ds) ! i) = Inr (vs ! i, hi')" if "i < length (d # ds)" for i
  proof (cases i)
    case 0
    with g vs show ?thesis by auto
  next
    case (Suc j)
    with that r vs show ?thesis by auto
  qed
  with l vs show ?case by simp
qed

lemma construct_built:
  assumes c: "construct req h sc cls options = Inr (v, h')" and s: "sound req"
    and o: "getObj h cls = Some c'" and k: "isFunction c'" "\<not> truthy (getProp c' ''isStatic'')"
  shows "\<exists>args h1. constructorArguments req h sc c' options = Inr (args, h1) \<and>
           v = Ref (length (objs h1)) \<and> built (objs h' ! length (objs h1)) = Some (cls, args)"
proof -
  from c o k obtain args h1 where ca: "constructorArguments req h sc c' options = Inr (args, h1)"
    by (auto simp: construct_def split: sum.splits)
  define inst where "inst = length (objs h1)"
  define h2 where "h2 = snd (newInstance h1 cls args)"
  have n: "newInstance h1 cls args = (inst, h2)" by (simp add: h2_def inst_def newInstance_def)
  have b2: "built (objs h2 ! inst) = Some (cls, args)" and l2: "inst < length (objs h2)"
    by (simp_all add: h2_def inst_def newInstance_def)
  from c o k ca n have v: "v = Ref inst"
    and b: "(injectProperties c' = None \<and> h' = h2)
         \<or> (\<exists>ps. injectProperties c' = Some ps \<and>
               injectProperty req h2 sc inst ps = Inr ((), h'))"
    by (auto simp: construct_def split: sum.splits option.splits)
  from b have "grows h2 h'"
    by (auto simp: grows_refl dest: grows_injectProperty[OF s])
  with l2 b2 have "built (objs h' ! inst) = Some (cls, args)" by (simp add: grows_def)
  with ca v show ?thesis by (auto simp: inst_def)
qed

section \<open>Singletons and transients\<close>

text \<open>
  Claim C1, as amended. Take a scope and a service name that has a
  descriptor, and a first \<open>require\<close> call that returns. If the last
  descriptor of the name is not flagged transient (at either call), a second
  \<open>require\<close> call returns too, and returns the very instance the first
  returned. If it is flagged transient and is constructible (a function not
  flagged static), a second call that returns gives a fresh object: the
  first instance did not exist before the first call, the second did not
  exist before the second call, so they are distinct. A static descriptor
  flagged transient is returned itself by every call, which is why the
  second half asks for a constructible descriptor.
\<close>

theorem require_twice:
  assumes cs: "serviceClassesOf h sc service = Inr (Some cs)" and ne: "cs \<noteq> []"
    and r1: "require (Suc n) h sc service o1 = Inr (v1, h1)"
  shows "(\<not> truthy (propOfVal h (Ref (last cs)) ''transient'') \<and>
          \<not> truthy (propOfVal h1 (Ref (last cs)) ''transient'') \<longrightarrow>
            (\<exists>h2. require (Suc m) h1 sc service o2 = Inr (v1, h2)))
       \<and> (truthy (propOfVal h (Ref (last cs)) ''transient'') \<and>
          truthy (propOfVal h1 (Ref (last cs)) ''transient'') \<and>
          constructible h (last cs) \<and> constructible h1 (last cs) \<and>
          require (Suc m) h1 sc service o2 = Inr (v2, h2) \<longrightarrow>
            (\<exists>r1 r2. v1 = Ref r1 \<and> v2 = Ref r2 \<and> r1 \<noteq> r2 \<and>
               length (objs h) \<le> r1 \<and> r1 < length (objs h1) \<and>
               length (objs h1) \<le> r2 \<and> r2 < length (objs h2)))
       \<and> (truthy (propOfVal h (Ref (last cs)) ''transient'') \<and>
          \<not> constructible h (last cs) \<longrightarrow> v1 = Ref (last cs))"
proof -
  have third: "truthy (propOfVal h (Ref (last cs)) ''transient'') \<and>
          \<not> constructible h (last cs) \<longrightarrow> v1 = Ref (last cs)"
  proof
    assume tr: "truthy (propOfVal h (Ref (last cs)) ''transient'') \<and>
          \<not> constructible h (last cs)"
    from r1 cs ne tr have c1: "construct (\<lambda>h' sc' d. require n h' sc' d Undefined)
        h sc (last cs) o1 = Inr (v1, h1)"
      by (auto simp: propOfVal_def split: option.splits if_splits)
    from c1 tr show "v1 = Ref (last cs)"
      by (elim construct_cases) (auto simp: constructible_def)
  qed
  have "(\<not> truthy (propOfVal h (Ref (last cs)) ''transient'') \<and>
          \<not> truthy (propOfVal h1 (Ref (last cs)) ''transient'') \<longrightarrow>
            (\<exists>h2. require (Suc m) h1 sc service o2 = Inr (v1, h2)))
       \<and> (truthy (propOfVal h (Ref (last cs)) ''transient'') \<and>
          truthy (propOfVal h1 (Ref (last cs)) ''transient'') \<and>
          constructible h (last cs) \<and> constructible h1 (last cs) \<and>
          require (Suc m) h1 sc service o2 = Inr (v2, h2) \<longrightarrow>
            (\<exists>r1 r2. v1 = Ref r1 \<and> v2 = Ref r2 \<and> r1 \<noteq> r2 \<and>
               length (objs h) \<le> r1 \<and> r1 < length (objs h1) \<and>
               length (objs h1) \<le> r2 \<and> r2 < length (objs h2)))"
  proof (rule conjI; rule impI)
  have g: "grows h h1" using r1 by (rule grows_require)
  from serviceClassesOf_grows[OF g cs] have cs1: "serviceClassesOf h1 sc service = Inr (Some cs)" .
  from r1 cs ne have "getObj h (last cs) \<noteq> None" by (auto split: option.splits)
  then have "last cs < length (objs h)" by (simp add: getObj_def split: if_splits)
  with g have "last cs < length (objs h1)" by (simp add: grows_def)
  then have o1: "getObj h1 (last cs) = Some (objs h1 ! last cs)" by (simp add: getObj_def)
  {
    assume nt: "\<not> truthy (propOfVal h (Ref (last cs)) ''transient'') \<and>
          \<not> truthy (propOfVal h1 (Ref (last cs)) ''transient'')"
    from r1 cs ne nt have g1: "getSingleton (\<lambda>h' sc' d. require n h' sc' d Undefined)
        h sc service (length cs - 1) o1 = Inr (v1, h1)"
      by (auto simp: propOfVal_def split: option.splits if_splits)
    from getSingleton_post[OF g1 sound_require] cs
    have t: "truthy v1" and c: "cached h1 sc service (length cs - 1) = v1" by auto
    from nt o1 have "\<not> truthy (getProp (objs h1 ! last cs) ''transient'')"
      by (simp add: propOfVal_def)
    with cs1 ne o1 have "require (Suc m) h1 sc service o2 =
        getSingleton (\<lambda>h' sc' d. require m h' sc' d Undefined) h1 sc service (length cs - 1) o2"
      by simp
    also from getSingleton_hit[OF cs1, of "length cs - 1"
        "\<lambda>h' sc' d. require m h' sc' d Undefined" o2] t c
    have "\<dots> = Inr (v1, allocInstances h1 sc service)" by simp
    finally show "\<exists>h2. require (Suc m) h1 sc service o2 = Inr (v1, h2)" by blast
  }
  {
    assume tr: "truthy (propOfVal h (Ref (last cs)) ''transient'') \<and>
          truthy (propOfVal h1 (Ref (last cs)) ''transient'') \<and>
          constructible h (last cs) \<and> constructible h1 (last cs) \<and>
          require (Suc m) h1 sc service o2 = Inr (v2, h2)"
    then have r2: "require (Suc m) h1 sc service o2 = Inr (v2, h2)" by blast
    from r1 cs ne tr have c1: "construct (\<lambda>h' sc' d. require n h' sc' d Undefined)
        h sc (last cs) o1 = Inr (v1, h1)"
      by (auto simp: propOfVal_def split: option.splits if_splits)
    from r2 cs1 ne tr have c2: "construct (\<lambda>h' sc' d. require m h' sc' d Undefined)
        h1 sc (last cs) o2 = Inr (v2, h2)"
      by (auto simp: propOfVal_def split: option.splits if_splits)
    from construct_fresh[OF c1 sound_require] construct_fresh[OF c2 sound_require] tr
    show "\<exists>r1 r2. v1 = Ref r1 \<and> v2 = Ref r2 \<and> r1 \<noteq> r2 \<and>
               length (objs h) \<le> r1 \<and> r1 < length (objs h1) \<and>
               length (objs h1) \<le> r2 \<and> r2 < length (objs h2)"
      by fastforce
  }
  qed
  with third show ?thesis by blast
qed

theorem require_twice_witness:
  "serviceClassesOf appHeap 0 ''singleton'' = Inr (Some [1]) \<and>
   serviceClassesOf appHeap 0 ''service'' = Inr (Some [2]) \<and>
   (\<exists>v1 h1 h2.
      require (Suc 0) appHeap 0 ''singleton'' Undefined = Inr (v1, h1) \<and>
      \<not> truthy (propOfVal appHeap (Ref 1) ''transient'') \<and>
      \<not> truthy (propOfVal h1 (Ref 1) ''transient'') \<and>
      require (Suc 0) h1 0 ''singleton'' Undefined = Inr (v1, h2)) \<and>
   (\<exists>v1 h1 v2 h2.
      require (Suc 0) appHeap 0 ''service'' Undefined = Inr (v1, h1) \<and>
      require (Suc 0) h1 0 ''service'' Undefined = Inr (v2, h2) \<and>
      truthy (propOfVal appHeap (Ref 2) ''transient'') \<and>
      truthy (propOfVal h1 (Ref 2) ''transient'') \<and>
      constructible appHeap 2 \<and> constructible h1 2 \<and> v1 \<noteq> v2)"
proof -
  have s1: "serviceClassesOf appHeap 0 ''singleton'' = Inr (Some [1])"
    by (simp add: appHeap_def heap_defs)
  have s2: "serviceClassesOf appHeap 0 ''service'' = Inr (Some [2])"
    by (simp add: appHeap_def heap_defs)
  have "\<exists>v1 h1.
      require (Suc 0) appHeap 0 ''singleton'' Undefined = Inr (v1, h1) \<and>
      \<not> truthy (propOfVal appHeap (Ref 1) ''transient'') \<and>
      \<not> truthy (propOfVal h1 (Ref 1) ''transient'')"
    by (simp add: appHeap_def heap_defs code_defs)
  then obtain v1 h1 where
    a: "require (Suc 0) appHeap 0 ''singleton'' Undefined = Inr (v1, h1)"
    and n: "\<not> truthy (propOfVal appHeap (Ref 1) ''transient'')"
       "\<not> truthy (propOfVal h1 (Ref 1) ''transient'')"
    by blast
  from require_twice[OF s1 _ a, of 0 Undefined] n
  obtain h2 where "require (Suc 0) h1 0 ''singleton'' Undefined = Inr (v1, h2)" by auto
  with a n have first: "\<exists>v1 h1 h2.
      require (Suc 0) appHeap 0 ''singleton'' Undefined = Inr (v1, h1) \<and>
      \<not> truthy (propOfVal appHeap (Ref 1) ''transient'') \<and>
      \<not> truthy (propOfVal h1 (Ref 1) ''transient'') \<and>
      require (Suc 0) h1 0 ''singleton'' Undefined = Inr (v1, h2)"
    by blast
  have "\<exists>v1 h1 v2 h2.
      require (Suc 0) appHeap 0 ''service'' Undefined = Inr (v1, h1) \<and>
      require (Suc 0) h1 0 ''service'' Undefined = Inr (v2, h2) \<and>
      truthy (propOfVal appHeap (Ref 2) ''transient'') \<and>
      truthy (propOfVal h1 (Ref 2) ''transient'') \<and>
      constructible appHeap 2 \<and> constructible h1 2"
    by (simp add: appHeap_def heap_defs code_defs)
  then obtain w1 k1 w2 k2 where
    b: "require (Suc 0) appHeap 0 ''service'' Undefined = Inr (w1, k1)"
       "require (Suc 0) k1 0 ''service'' Undefined = Inr (w2, k2)"
    and t: "truthy (propOfVal appHeap (Ref 2) ''transient'')"
       "truthy (propOfVal k1 (Ref 2) ''transient'')"
       "constructible appHeap 2" "constructible k1 2"
    by blast
  from require_twice[OF s2 _ b(1), of 0 Undefined w2 k2] b(2) t have "w1 \<noteq> w2" by auto
  with b t have second: "\<exists>v1 h1 v2 h2.
      require (Suc 0) appHeap 0 ''service'' Undefined = Inr (v1, h1) \<and>
      require (Suc 0) h1 0 ''service'' Undefined = Inr (v2, h2) \<and>
      truthy (propOfVal appHeap (Ref 2) ''transient'') \<and>
      truthy (propOfVal h1 (Ref 2) ''transient'') \<and>
      constructible appHeap 2 \<and> constructible h1 2 \<and> v1 \<noteq> v2"
    by blast
  from s1 s2 first second show ?thesis by blast
qed

text \<open>The claim as stated fails for a static descriptor flagged transient:
  the plain object registered under \<open>config\<close> is flagged transient, and
  \<open>require\<close> returns that object itself and leaves the heap as it was, so the
  next call returns it again: the two instances are neither distinct nor
  freshly constructed.\<close>

theorem require_transient_static_counterexample:
  "serviceClassesOf appHeap 0 ''config'' = Inr (Some [3]) \<and>
   truthy (propOfVal appHeap (Ref 3) ''transient'') \<and>
   require (Suc 0) appHeap 0 ''config'' Undefined = Inr (Ref 3, appHeap)"
  by (simp add: appHeap_def heap_defs code_defs)

lemma grows_getServiceInstance:
  "sound req \<Longrightarrow> getServiceInstance req h sc service options cls index = Inr (v, h') \<Longrightarrow>
   grows h h'"
  by (auto simp: getServiceInstance_def split: option.splits if_splits
      dest: getSingleton_post grows_construct)

lemma mapServices_order:
  "mapServices req h sc service options k cs = Inr (vs, h') \<Longrightarrow>
   length vs = length cs \<and>
   (\<forall>i < length cs. \<exists>hi hi'.
      getServiceInstance req hi sc service options (cs ! i) (k + i) = Inr (vs ! i, hi'))"
proof (induction cs arbitrary: h k vs)
  case Nil
  then show ?case by simp
next
  case (Cons c cs)
  from Cons.prems obtain v h1 vs' where
    g: "getServiceInstance req h sc service options c k = Inr (v, h1)"
    and m: "mapServices req h1 sc service options (Suc k) cs = Inr (vs', h')"
    and vs: "vs = v # vs'"
    by (auto split: sum.splits)
  from Cons.IH[OF m] have l: "length vs' = length cs"
    and r: "\<forall>i < length cs. \<exists>hi hi'.
      getServiceInstance req hi sc service options (cs ! i) (Suc k + i) = Inr (vs' ! i, hi')"
    by auto
  have "\<exists>hi hi'. getServiceInstance req hi sc service options ((c # cs) ! i) (k + i)
          = Inr (vs ! i, hi')" if "i < length (c # cs)" for i
  proof (cases i)
    case 0
    with g vs show ?thesis by auto
  next
    case (Suc j)
    with that r vs show ?thesis by auto
  qed
  with l vs show ?case by simp
qed

section \<open>Constructor arguments\<close>

text \<open>
  Claim C4, as amended. For a constructible descriptor (a function not
  flagged static) on which \<open>construct\<close> returns: with an \<open>inject\<close> list,
  the dependencies are resolved by \<open>scope.require\<close> from left to right
  (\<open>requireDependency\<close>), the options value is appended as one last argument
  exactly when it is truthy, the scope is not put in front, and the
  constructor is called with that list; without an \<open>inject\<close> list, the
  constructor is called with the two arguments scope and options. The
  instance returned is the fresh object that records the call. An options
  value that is supplied but falsy (\<open>false\<close>, \<open>null\<close>, the empty string) is
  not appended: see the counterexample below.
\<close>

theorem construct_arguments:
  assumes c: "construct (\<lambda>h' sc' d. require n h' sc' d Undefined) h sc cls options = Inr (v, h')"
    and o: "getObj h cls = Some c'" and k: "isFunction c'" "\<not> truthy (getProp c' ''isStatic'')"
  shows "(\<forall>deps. inject c' = Some deps \<longrightarrow>
            (\<exists>vs h1. requireDependency (\<lambda>h' sc' d. require n h' sc' d Undefined) h sc deps
                        = Inr (vs, h1) \<and>
               length vs = length deps \<and>
               (\<forall>i < length deps. \<exists>hi hi'. require n hi sc (deps ! i) Undefined = Inr (vs ! i, hi')) \<and>
               v = Ref (length (objs h1)) \<and>
               built (objs h' ! length (objs h1)) =
                 Some (cls, if truthy options then vs @ [options] else vs)))
       \<and> (inject c' = None \<longrightarrow>
            v = Ref (length (objs h)) \<and>
            built (objs h' ! length (objs h)) = Some (cls, [Ref sc, options]))"
proof -
  from construct_built[OF c sound_require o k] obtain args h1 where
    ca: "constructorArguments (\<lambda>h' sc' d. require n h' sc' d Undefined) h sc c' options
           = Inr (args, h1)"
    and v: "v = Ref (length (objs h1))"
    and b: "built (objs h' ! length (objs h1)) = Some (cls, args)"
    by blast
  show ?thesis
  proof (intro conjI allI impI)
    fix deps assume i: "inject c' = Some deps"
    with ca obtain vs where r: "requireDependency (\<lambda>h' sc' d. require n h' sc' d Undefined)
        h sc deps = Inr (vs, h1)"
      and a: "args = (if truthy options then vs @ [options] else vs)"
      by (auto simp: constructorArguments_def split: sum.splits)
    from requireDependency_order[OF r] r a v b
    show "\<exists>vs h1. requireDependency (\<lambda>h' sc' d. require n h' sc' d Undefined) h sc deps
                        = Inr (vs, h1) \<and>
               length vs = length deps \<and>
               (\<forall>i < length deps. \<exists>hi hi'. require n hi sc (deps ! i) Undefined = Inr (vs ! i, hi')) \<and>
               v = Ref (length (objs h1)) \<and>
               built (objs h' ! length (objs h1)) =
                 Some (cls, if truthy options then vs @ [options] else vs)"
      by auto
  next
    assume "inject c' = None"
    with ca v b show "v = Ref (length (objs h))"
      and "built (objs h' ! length (objs h)) = Some (cls, [Ref sc, options])"
      by (auto simp: constructorArguments_def)
  qed
qed

theorem construct_arguments_witness:
  "getObj depHeap 1 = Some (objs depHeap ! 1) \<and> isFunction (objs depHeap ! 1) \<and>
   \<not> truthy (getProp (objs depHeap ! 1) ''isStatic'') \<and>
   inject (objs depHeap ! 1) = Some [''singleton'', ''other-service'', ''the-scope''] \<and>
   truthy (Ref 4) \<and>
   (\<exists>h'. construct (\<lambda>h' sc' d. require (Suc 0) h' sc' d Undefined) depHeap 0 1 (Ref 4)
            = Inr (Ref 7, h') \<and>
      (\<exists>vs h1. requireDependency (\<lambda>h' sc' d. require (Suc 0) h' sc' d Undefined) depHeap 0
                  [''singleton'', ''other-service'', ''the-scope''] = Inr (vs, h1) \<and>
         length vs = 3 \<and> built (objs h' ! length (objs h1)) = Some (1, vs @ [Ref 4]))) \<and>
   getObj depHeap 3 = Some (objs depHeap ! 3) \<and> isFunction (objs depHeap ! 3) \<and>
   \<not> truthy (getProp (objs depHeap ! 3) ''isStatic'') \<and>
   inject (objs depHeap ! 3) = None \<and>
   (\<exists>h'. construct (\<lambda>h' sc' d. require (Suc 0) h' sc' d Undefined) depHeap 0 3 (Ref 4)
            = Inr (Ref 5, h') \<and>
      built (objs h' ! 5) = Some (3, [Ref 0, Ref 4]))"
proof -
  have o1: "getObj depHeap 1 = Some (objs depHeap ! 1)"
    and k1: "isFunction (objs depHeap ! 1)" "\<not> truthy (getProp (objs depHeap ! 1) ''isStatic'')"
    and i1: "inject (objs depHeap ! 1) = Some [''singleton'', ''other-service'', ''the-scope'']"
    and o3: "getObj depHeap 3 = Some (objs depHeap ! 3)"
    and k3: "isFunction (objs depHeap ! 3)" "\<not> truthy (getProp (objs depHeap ! 3) ''isStatic'')"
    and i3: "inject (objs depHeap ! 3) = None"
    and l: "length (objs depHeap) = 5"
    by (simp_all add: depHeap_def heap_defs)
  have "\<exists>h'. construct (\<lambda>h' sc' d. require (Suc 0) h' sc' d Undefined) depHeap 0 1 (Ref 4)
            = Inr (Ref 7, h')"
    by (simp add: depHeap_def heap_defs code_defs)
  then obtain h' where c1: "construct (\<lambda>h' sc' d. require (Suc 0) h' sc' d Undefined)
      depHeap 0 1 (Ref 4) = Inr (Ref 7, h')"
    by blast
  from construct_arguments[OF c1 o1 k1] i1
  have first: "\<exists>vs h1. requireDependency (\<lambda>h' sc' d. require (Suc 0) h' sc' d Undefined) depHeap 0
                  [''singleton'', ''other-service'', ''the-scope''] = Inr (vs, h1) \<and>
         length vs = 3 \<and> built (objs h' ! length (objs h1)) = Some (1, vs @ [Ref 4])"
    by fastforce
  have "\<exists>k'. construct (\<lambda>h' sc' d. require (Suc 0) h' sc' d Undefined) depHeap 0 3 (Ref 4)
            = Inr (Ref 5, k')"
    by (simp add: depHeap_def heap_defs code_defs)
  then obtain k' where c3: "construct (\<lambda>h' sc' d. require (Suc 0) h' sc' d Undefined)
      depHeap 0 3 (Ref 4) = Inr (Ref 5, k')"
    by blast
  from construct_arguments[OF c3 o3 k3] i3 l
  have second: "built (objs k' ! 5) = Some (3, [Ref 0, Ref 4])" by simp
  from o1 k1 i1 c1 first o3 k3 i3 c3 second show ?thesis by auto
qed

theorem construct_falsy_options_counterexample:
  "inject (objs depHeap ! 1) = Some [''singleton'', ''other-service'', ''the-scope''] \<and>
   returned (construct (\<lambda>h' sc' d. require (Suc 0) h' sc' d Undefined) depHeap 0 1 (Bool False))
     = Some (Ref 7) \<and>
   builtAfter (construct (\<lambda>h' sc' d. require (Suc 0) h' sc' d Undefined) depHeap 0 1 (Bool False)) 7
     = Some (1, [Ref 5, Ref 6, Ref 0])"
  by (simp add: depHeap_def heap_defs code_defs returned_def builtAfter_def)

lemma callNthService_failing:
  "methodOf h s method = Some f \<Longrightarrow> f options = Calls err \<Longrightarrow> truthy err \<Longrightarrow>
   callNthService h method options (s # post) = [Ran (Method s method), Done err]"
  by (simp add: nextStep_def)

lemma callNthService_succeeding:
  "succeeds h method options s \<Longrightarrow>
   callNthService h method options (s # rest) =
     map (\<lambda>s. Ran (Method s method)) (exposing h method [s]) @
       (if rest \<noteq> [] then callNthService h method options rest else [Done Undefined])"
  by (auto simp: succeeds_def exposing_def nextStep_def split: option.splits reply.splits)

lemma callNthService_prefix:
  "\<forall>p \<in> set pre. succeeds h method options p \<Longrightarrow> rest \<noteq> [] \<Longrightarrow>
   callNthService h method options (pre @ rest) =
     map (\<lambda>s. Ran (Method s method)) (exposing h method pre) @
       callNthService h method options rest"
proof (induction pre)
  case Nil
  then show ?case by (simp add: exposing_def)
next
  case (Cons p pre)
  then have "succeeds h method options p" by simp
  from callNthService_succeeding[OF this, of "pre @ rest"] Cons
  show ?case by (simp add: exposing_def)
qed

lemma callNthService_all:
  "\<forall>p \<in> set svcs. succeeds h method options p \<Longrightarrow> svcs \<noteq> [] \<Longrightarrow>
   callNthService h method options svcs =
     map (\<lambda>s. Ran (Method s method)) (exposing h method svcs) @ [Done Undefined]"
proof (induction svcs)
  case Nil
  then show ?case by simp
next
  case (Cons p svcs)
  then have "succeeds h method options p" by simp
  from callNthService_succeeding[OF this, of svcs] Cons
  show ?case by (cases "svcs = []") (simp_all add: exposing_def)
qed

section \<open>callService\<close>

text \<open>
  Claim C6. Let \<open>getServices\<close> return the instances \<open>svcs\<close>. With no
  instance, the run of \<open>callService\<close> is the call \<open>done()\<close> alone. When every
  instance lets the chain go on, the run is the methods of the instances
  that expose the method, in the order of \<open>svcs\<close>, then \<open>done()\<close>: an
  instance without the method is skipped and counts as a success. When the
  instances before \<open>s\<close> let the chain go on and the method of \<open>s\<close> passes a
  (truthy) error to its callback, the run is the methods before \<open>s\<close>, the
  method of \<open>s\<close>, then \<open>done\<close> with that very error: no method of a later
  instance runs.
\<close>

theorem callService_serial:
  assumes g: "getServices n h sc service Undefined = Inr (svcs, h1)"
  shows "(svcs = [] \<longrightarrow>
            callService n h sc service method options = Inr ([Done Undefined], h1))
       \<and> (svcs \<noteq> [] \<and> (\<forall>s \<in> set svcs. succeeds h1 method options s) \<longrightarrow>
            callService n h sc service method options =
              Inr (map (\<lambda>s. Ran (Method s method)) (exposing h1 method svcs)
                     @ [Done Undefined], h1))
       \<and> (\<forall>pre s post f err.
            svcs = pre @ s # post \<and> (\<forall>p \<in> set pre. succeeds h1 method options p) \<and>
            methodOf h1 s method = Some f \<and> f options = Calls err \<and> truthy err \<longrightarrow>
            callService n h sc service method options =
              Inr (map (\<lambda>s. Ran (Method s method)) (exposing h1 method pre)
                     @ [Ran (Method s method), Done err], h1))"
proof (intro conjI allI impI)
  assume "svcs = []"
  with g show "callService n h sc service method options = Inr ([Done Undefined], h1)"
    by (simp add: callService_def)
next
  assume a: "svcs \<noteq> [] \<and> (\<forall>s \<in> set svcs. succeeds h1 method options s)"
  then have "callNthService h1 method options svcs =
     map (\<lambda>s. Ran (Method s method)) (exposing h1 method svcs) @ [Done Undefined]"
    by (simp add: callNthService_all)
  with g a show "callService n h sc service method options =
              Inr (map (\<lambda>s. Ran (Method s method)) (exposing h1 method svcs)
                     @ [Done Undefined], h1)"
    by (simp add: callService_def)
next
  fix pre s post f err
  assume a: "svcs = pre @ s # post \<and> (\<forall>p \<in> set pre. succeeds h1 method options p) \<and>
            methodOf h1 s method = Some f \<and> f options = Calls err \<and> truthy err"
  then have "callNthService h1 method options (pre @ s # post) =
     map (\<lambda>s. Ran (Method s method)) (exposing h1 method pre) @
       callNthService h1 method options (s # post)"
    by (simp add: callNthService_prefix)
  moreover from a callNthService_failing[of h1 s _ f options err post]
  have "callNthService h1 method options (s # post) = [Ran (Method s method), Done err]"
    by blast
  ultimately show "callService n h sc service method options =
              Inr (map (\<lambda>s. Ran (Method s method)) (exposing h1 method pre)
                     @ [Ran (Method s method), Done err], h1)"
    using g a by (simp add: callService_def)
qed

theorem callService_serial_witness:
  "(\<exists>h1. getServices 0 svcHeap 0 ''none'' Undefined = Inr ([], h1) \<and>
      callService 0 svcHeap 0 ''none'' ''method'' (Str ''ctx'') = Inr ([Done Undefined], h1)) \<and>
   (\<exists>h1. getServices 0 svcHeap 0 ''service'' Undefined = Inr ([Ref 5, Ref 6, Ref 7], h1) \<and>
      (\<forall>s \<in> set [Ref 5, Ref 6, Ref 7]. succeeds h1 ''method'' (Str ''ctx'') s) \<and>
      methodOf h1 (Ref 6) ''method'' = None \<and>
      callService 0 svcHeap 0 ''service'' ''method'' (Str ''ctx'') =
        Inr ([Ran (Method (Ref 5) ''method''), Ran (Method (Ref 7) ''method''),
              Done Undefined], h1)) \<and>
   (\<exists>h1. getServices 0 svcHeap 0 ''failing'' Undefined = Inr ([Ref 5] @ Ref 6 # [Ref 7], h1) \<and>
      (\<forall>p \<in> set [Ref 5]. succeeds h1 ''method'' (Str ''ctx'') p) \<and>
      methodOf h1 (Ref 6) ''method'' = Some (\<lambda>options. Calls (Str ''boom'')) \<and>
      truthy (Str ''boom'') \<and> methodOf h1 (Ref 7) ''method'' \<noteq> None \<and>
      callService 0 svcHeap 0 ''failing'' ''method'' (Str ''ctx'') =
        Inr ([Ran (Method (Ref 5) ''method''), Ran (Method (Ref 6) ''method''),
              Done (Str ''boom'')], h1))"
proof -
  have "\<exists>h1. getServices 0 svcHeap 0 ''none'' Undefined = Inr ([], h1)"
    by (simp add: svcHeap_def heap_defs code_defs)
  then obtain h1 where g1: "getServices 0 svcHeap 0 ''none'' Undefined = Inr ([], h1)" by blast
  from callService_serial[OF g1, of "''method''" "Str ''ctx''"]
  have c1: "callService 0 svcHeap 0 ''none'' ''method'' (Str ''ctx'') = Inr ([Done Undefined], h1)"
    by blast
  have "\<exists>h2. getServices 0 svcHeap 0 ''service'' Undefined = Inr ([Ref 5, Ref 6, Ref 7], h2) \<and>
      (\<forall>s \<in> set [Ref 5, Ref 6, Ref 7]. succeeds h2 ''method'' (Str ''ctx'') s) \<and>
      methodOf h2 (Ref 6) ''method'' = None \<and>
      exposing h2 ''method'' [Ref 5, Ref 6, Ref 7] = [Ref 5, Ref 7]"
    by (simp add: svcHeap_def heap_defs code_defs methodOf_def succeeds_def exposing_def)
  then obtain h2 where
    g2: "getServices 0 svcHeap 0 ''service'' Undefined = Inr ([Ref 5, Ref 6, Ref 7], h2)"
    and s2: "\<forall>s \<in> set [Ref 5, Ref 6, Ref 7]. succeeds h2 ''method'' (Str ''ctx'') s"
    and m2: "methodOf h2 (Ref 6) ''method'' = None"
    and e2: "exposing h2 ''method'' [Ref 5, Ref 6, Ref 7] = [Ref 5, Ref 7]"
    by blast
  from callService_serial[OF g2, of "''method''" "Str ''ctx''"] s2 e2
  have c2: "callService 0 svcHeap 0 ''service'' ''method'' (Str ''ctx'') =
        Inr ([Ran (Method (Ref 5) ''method''), Ran (Method (Ref 7) ''method''),
              Done Undefined], h2)"
    by simp
  have "\<exists>h3. getServices 0 svcHeap 0 ''failing'' Undefined = Inr ([Ref 5] @ Ref 6 # [Ref 7], h3) \<and>
      (\<forall>p \<in> set [Ref 5]. succeeds h3 ''method'' (Str ''ctx'') p) \<and>
      methodOf h3 (Ref 6) ''method'' = Some (\<lambda>options. Calls (Str ''boom'')) \<and>
      methodOf h3 (Ref 7) ''method'' \<noteq> None \<and>
      exposing h3 ''method'' [Ref 5] = [Ref 5]"
    by (simp add: svcHeap_def heap_defs code_defs methodOf_def succeeds_def exposing_def)
  then obtain h3 where
    g3: "getServices 0 svcHeap 0 ''failing'' Undefined = Inr ([Ref 5] @ Ref 6 # [Ref 7], h3)"
    and s3: "\<forall>p \<in> set [Ref 5]. succeeds h3 ''method'' (Str ''ctx'') p"
    and m3: "methodOf h3 (Ref 6) ''method'' = Some (\<lambda>options. Calls (Str ''boom''))"
      "methodOf h3 (Ref 7) ''method'' \<noteq> None"
    and e3: "exposing h3 ''method'' [Ref 5] = [Ref 5]"
    by blast
  from callService_serial[OF g3, of "''method''" "Str ''ctx''"]
  have "[Ref 5] @ Ref 6 # [Ref 7] = [Ref 5] @ Ref 6 # [Ref 7] \<and>
        (\<forall>p \<in> set [Ref 5]. succeeds h3 ''method'' (Str ''ctx'') p) \<and>
        methodOf h3 (Ref 6) ''method'' = Some (\<lambda>options. Calls (Str ''boom'')) \<and>
        (\<lambda>options. Calls (Str ''boom'')) (Str ''ctx'') = Calls (Str ''boom'') \<and>
        truthy (Str ''boom'') \<longrightarrow>
        callService 0 svcHeap 0 ''failing'' ''method'' (Str ''ctx'') =
          Inr (map (\<lambda>s. Ran (Method s ''method'')) (exposing h3 ''method'' [Ref 5])
                 @ [Ran (Method (Ref 6) ''method''), Done (Str ''boom'')], h3)"
    by blast
  with s3 m3 e3
  have c3: "callService 0 svcHeap 0 ''failing'' ''method'' (Str ''ctx'') =
        Inr ([Ran (Method (Ref 5) ''method''), Ran (Method (Ref 6) ''method''),
              Done (Str ''boom'')], h3)"
    by simp
  from g1 c1 g2 s2 m2 c2 g3 s3 m3 c3 show ?thesis by auto
qed

lemma serviceToMethod_steps:
  "serviceToMethod h (Some m) svcs = Inr steps \<Longrightarrow>
   map fst steps = map (\<lambda>v. Method v m) svcs \<and>
   (\<forall>i < length svcs. methodOf h (svcs ! i) m = Some (snd (steps ! i)))"
proof (induction svcs arbitrary: steps)
  case Nil
  then show ?case by simp
next
  case (Cons v svcs)
  from Cons.prems obtain f steps' where f: "methodOf h v m = Some f"
    and r: "serviceToMethod h (Some m) svcs = Inr steps'"
    and s: "steps = (Method v m, f) # steps'"
    by (auto split: option.splits sum.splits)
  from Cons.IH[OF r] have ih: "map fst steps' = map (\<lambda>v. Method v m) svcs"
    "\<forall>i < length svcs. methodOf h (svcs ! i) m = Some (snd (steps' ! i))"
    by auto
  have "methodOf h ((v # svcs) ! i) m = Some (snd (steps ! i))" if "i < length (v # svcs)" for i
    using that f ih(2) s by (cases i) auto
  with ih(1) s show ?case by simp
qed

lemma serviceToMethod_lacking:
  "\<exists>v \<in> set svcs. methodOf h v m = None \<Longrightarrow> serviceToMethod h (Some m) svcs = Inl TypeError"
proof (induction svcs)
  case Nil
  then show ?case by simp
next
  case (Cons v svcs)
  show ?case
  proof (cases "methodOf h v m")
    case None
    then show ?thesis by simp
  next
    case (Some f)
    with Cons.prems have "\<exists>v \<in> set svcs. methodOf h v m = None" by auto
    from Cons.IH[OF this] Some show ?thesis by simp
  qed
qed

lemma serviceToMethod_errors: "serviceToMethod h m svcs = Inl e \<Longrightarrow> e = TypeError"
  by (induction svcs) (auto split: option.splits sum.splits)

lemma executeNthStep_all:
  "\<forall>st \<in> set steps. stepSucceeds options st \<Longrightarrow> steps \<noteq> [] \<Longrightarrow>
   executeNthStep options steps = map (\<lambda>st. Ran (fst st)) steps @ [Done Undefined]"
proof (induction steps)
  case Nil
  then show ?case by simp
next
  case (Cons st steps)
  obtain c f where st: "st = (c, f)" by (cases st)
  from Cons.prems st obtain err where e: "f options = Calls err" "\<not> truthy err"
    by (auto simp: stepSucceeds_def split: reply.splits)
  show ?case
  proof (cases "steps = []")
    case True
    with st e show ?thesis by (simp add: nextStep_def)
  next
    case False
    with Cons st e show ?thesis by (simp add: nextStep_def)
  qed
qed

lemma lifecycle_pair:
  assumes "lifecycle n h sc (Name s # Name m # rest) = Inr (steps, h')"
  shows "\<exists>svcs h1 others. getServices n h sc s Undefined = Inr (svcs, h1) \<and>
           lifecycle n h1 sc rest = Inr (others, h') \<and>
           map fst (take (length svcs) steps) = map (\<lambda>v. Method v m) svcs \<and>
           (\<forall>i < length svcs. methodOf h1 (svcs ! i) m = Some (snd (steps ! i))) \<and>
           drop (length svcs) steps = others"
proof -
  from assms obtain svcs h1 bound others where
    g: "getServices n h sc s Undefined = Inr (svcs, h1)"
    and b: "serviceToMethod h1 (Some m) svcs = Inr bound"
    and l: "lifecycle n h1 sc rest = Inr (others, h')"
    and s: "steps = bound @ others"
    by (auto simp: thenSteps_def expandPair_def split: sum.splits)
  from serviceToMethod_steps[OF b] have m: "map fst bound = map (\<lambda>v. Method v m) svcs"
    and f: "\<forall>i < length svcs. methodOf h1 (svcs ! i) m = Some (snd (bound ! i))"
    by auto
  from m have len: "length bound = length svcs" by (metis length_map)
  with f s have "\<forall>i < length svcs. methodOf h1 (svcs ! i) m = Some (snd (steps ! i))"
    by (simp add: nth_append)
  with g l m s len show ?thesis by auto
qed

lemma lifecycle_function:
  assumes "lifecycle n h sc (Fn i f # rest) = Inr (steps, h')"
  shows "\<exists>others. lifecycle n h sc rest = Inr (others, h') \<and> steps = (Function i, f) # others"
  using assms by (auto simp: thenSteps_def split: sum.splits)

section \<open>lifecycle\<close>

text \<open>
  Claim C5. \<open>lifecycle\<close> returns the list of steps \<open>methodArray\<close>, and the
  function it returns runs that list and reads nothing else
  (\<open>runLifecycle\<close> takes the steps and the options only, so a registration
  made after the build cannot change it). When the build returns: a service
  name followed by a method name gives, in the order of the instances that
  \<open>getServices\<close> returned at build time, one step per instance, bound to the
  method that the instance has at build time, followed by the steps of the
  rest of the arguments; a function gives itself as one step, followed by
  the steps of the rest. A lifecycle with no step calls \<open>done()\<close> at once;
  one whose steps all call back with no error runs every step once, in
  order, then \<open>done()\<close>.
\<close>

theorem lifecycle_fixed_at_build:
  "(lifecycle n h sc (Name s # Name m # rest) = Inr (steps, h') \<longrightarrow>
      (\<exists>svcs h1 others. getServices n h sc s Undefined = Inr (svcs, h1) \<and>
         lifecycle n h1 sc rest = Inr (others, h') \<and>
         map fst (take (length svcs) steps) = map (\<lambda>v. Method v m) svcs \<and>
         (\<forall>i < length svcs. methodOf h1 (svcs ! i) m = Some (snd (steps ! i))) \<and>
         drop (length svcs) steps = others))
   \<and> (lifecycle n h sc (Fn i f # rest) = Inr (steps, h') \<longrightarrow>
        (\<exists>others. lifecycle n h sc rest = Inr (others, h') \<and>
           steps = (Function i, f) # others))
   \<and> runLifecycle [] options = [Done Undefined]
   \<and> (steps \<noteq> [] \<and> (\<forall>st \<in> set steps. stepSucceeds options st) \<longrightarrow>
        runLifecycle steps options = map (\<lambda>st. Ran (fst st)) steps @ [Done Undefined])"
  using lifecycle_pair[of n h sc s m rest steps h']
    lifecycle_function[of n h sc i f rest steps h']
    executeNthStep_all[of steps options]
  by (auto simp: runLifecycle_def)

theorem lifecycle_fixed_at_build_witness:
  "\<exists>steps h'.
     lifecycle 0 svcHeap 0
       [Name ''pair'', Name ''method'', Fn 0 (\<lambda>options. Calls Undefined),
        Name ''pair'', Name ''method''] = Inr (steps, h') \<and>
     map fst steps =
       [Method (Ref 5) ''method'', Method (Ref 6) ''method'', Function 0,
        Method (Ref 7) ''method'', Method (Ref 6) ''method''] \<and>
     steps \<noteq> [] \<and> (\<forall>st \<in> set steps. stepSucceeds (Str ''ctx'') st) \<and>
     runLifecycle steps (Str ''ctx'') =
       [Ran (Method (Ref 5) ''method''), Ran (Method (Ref 6) ''method''), Ran (Function 0),
        Ran (Method (Ref 7) ''method''), Ran (Method (Ref 6) ''method''), Done Undefined] \<and>
     (\<exists>svcs h1 others. getServices 0 svcHeap 0 ''pair'' Undefined = Inr (svcs, h1) \<and>
        length svcs = 2 \<and>
        map fst (take (length svcs) steps) = map (\<lambda>v. Method v ''method'') svcs \<and>
        length others = 3 \<and> drop (length svcs) steps = others) \<and>
     (\<exists>h2 steps2 h3. register h' 0 ''pair'' 4 = Inr h2 \<and>
        lifecycle 0 h2 0
          [Name ''pair'', Name ''method'', Fn 0 (\<lambda>options. Calls Undefined),
           Name ''pair'', Name ''method''] = Inr (steps2, h3) \<and>
        length steps2 = 7)"
proof -
  have "\<exists>steps h'.
     lifecycle 0 svcHeap 0
       [Name ''pair'', Name ''method'', Fn 0 (\<lambda>options. Calls Undefined),
        Name ''pair'', Name ''method''] = Inr (steps, h') \<and>
     map fst steps =
       [Method (Ref 5) ''method'', Method (Ref 6) ''method'', Function 0,
        Method (Ref 7) ''method'', Method (Ref 6) ''method''] \<and>
     (\<forall>st \<in> set steps. stepSucceeds (Str ''ctx'') st) \<and>
     (\<exists>svcs h1. getServices 0 svcHeap 0 ''pair'' Undefined = Inr (svcs, h1) \<and> length svcs = 2) \<and>
     (\<exists>h2 steps2 h3. register h' 0 ''pair'' 4 = Inr h2 \<and>
        lifecycle 0 h2 0
          [Name ''pair'', Name ''method'', Fn 0 (\<lambda>options. Calls Undefined),
           Name ''pair'', Name ''method''] = Inr (steps2, h3) \<and>
        length steps2 = 7)"
    by (simp add: svcHeap_def heap_defs code_defs methodOf_def stepSucceeds_def
        thenSteps_def expandPair_def register_def)
  then obtain steps h' where a: "lifecycle 0 svcHeap 0
       [Name ''pair'', Name ''method'', Fn 0 (\<lambda>options. Calls Undefined),
        Name ''pair'', Name ''method''] = Inr (steps, h') \<and>
     map fst steps =
       [Method (Ref 5) ''method'', Method (Ref 6) ''method'', Function 0,
        Method (Ref 7) ''method'', Method (Ref 6) ''method''] \<and>
     (\<forall>st \<in> set steps. stepSucceeds (Str ''ctx'') st) \<and>
     (\<exists>svcs h1. getServices 0 svcHeap 0 ''pair'' Undefined = Inr (svcs, h1) \<and> length svcs = 2) \<and>
     (\<exists>h2 steps2 h3. register h' 0 ''pair'' 4 = Inr h2 \<and>
        lifecycle 0 h2 0
          [Name ''pair'', Name ''method'', Fn 0 (\<lambda>options. Calls Undefined),
           Name ''pair'', Name ''method''] = Inr (steps2, h3) \<and>
        length steps2 = 7)"
    by (elim exE)
  from a have l: "lifecycle 0 svcHeap 0
       [Name ''pair'', Name ''method'', Fn 0 (\<lambda>options. Calls Undefined),
        Name ''pair'', Name ''method''] = Inr (steps, h')"
    by (rule conjunct1)
  from a have m: "map fst steps =
       [Method (Ref 5) ''method'', Method (Ref 6) ''method'', Function 0,
        Method (Ref 7) ''method'', Method (Ref 6) ''method'']"
    by (elim conjE)
  from a have ok: "\<forall>st \<in> set steps. stepSucceeds (Str ''ctx'') st"
    by (elim conjE)
  from a have g: "\<exists>svcs h1. getServices 0 svcHeap 0 ''pair'' Undefined = Inr (svcs, h1) \<and> length svcs = 2"
    by (elim conjE)
  from a have r: "\<exists>h2 steps2 h3. register h' 0 ''pair'' 4 = Inr h2 \<and>
        lifecycle 0 h2 0
          [Name ''pair'', Name ''method'', Fn 0 (\<lambda>options. Calls Undefined),
           Name ''pair'', Name ''method''] = Inr (steps2, h3) \<and>
        length steps2 = 7"
    by (elim conjE)
  from m have ne: "steps \<noteq> []" and len: "length steps = 5" by (auto dest: arg_cong[of _ _ length])
  note t = lifecycle_fixed_at_build[of 0 svcHeap 0 "''pair''" "''method''"
      "[Fn 0 (\<lambda>options. Calls Undefined), Name ''pair'', Name ''method'']" steps h' _ _
      "Str ''ctx''"]
  from t ne ok have "runLifecycle steps (Str ''ctx'')
      = map (\<lambda>st. Ran (fst st)) steps @ [Done Undefined]"
    by blast
  also have "map (\<lambda>st. Ran (fst st)) steps = map Ran (map fst steps)" by simp
  finally have run: "runLifecycle steps (Str ''ctx'') =
       [Ran (Method (Ref 5) ''method''), Ran (Method (Ref 6) ''method''), Ran (Function 0),
        Ran (Method (Ref 7) ''method''), Ran (Method (Ref 6) ''method''), Done Undefined]"
    by (simp add: m)
  from t l obtain svcs h1 others where
    e: "getServices 0 svcHeap 0 ''pair'' Undefined = Inr (svcs, h1)"
      "map fst (take (length svcs) steps) = map (\<lambda>v. Method v ''method'') svcs"
      "drop (length svcs) steps = others"
    by blast
  with g have "length svcs = 2" by auto
  with e len have "length svcs = 2 \<and> length others = 3" by auto
  with e have pair: "\<exists>svcs h1 others. getServices 0 svcHeap 0 ''pair'' Undefined = Inr (svcs, h1) \<and>
        length svcs = 2 \<and>
        map fst (take (length svcs) steps) = map (\<lambda>v. Method v ''method'') svcs \<and>
        length others = 3 \<and> drop (length svcs) steps = others"
    by blast
  show ?thesis
    apply (rule exI[of _ steps], rule exI[of _ "h'"])
    apply (intro conjI)
          apply (rule l m ne ok run pair r)+
    done
qed

lemma lifecycle_append:
  "aligned pre \<Longrightarrow>
   lifecycle n h sc (pre @ rest) =
     thenSteps (lifecycle n h sc pre) (\<lambda>h1. lifecycle n h1 sc rest)"
proof (induction pre arbitrary: h rule: aligned.induct)
  case 1
  show ?case by (simp add: thenSteps_def split: sum.splits)
next
  case (2 i f pre)
  then show ?case by (simp add: thenSteps_def split: sum.splits prod.splits)
next
  case (3 s)
  then show ?case by simp
next
  case (4 s x pre)
  then show ?case
    by (cases x) (simp_all add: thenSteps_def split: sum.splits prod.splits)
qed

lemma callService_returns:
  "getServices n h sc service Undefined = Inr (svcs, h1) \<Longrightarrow>
   \<exists>run. callService n h sc service method options = Inr (run, h1)"
  by (simp add: callService_def)

section \<open>The walk and the lists under allocation\<close>

lemma getObj_allocInstances_props:
  "propOfVal (allocInstances h r s) v k = propOfVal h v k"
  by (auto simp: propOfVal_def allocInstances_def updObj_def getObj_def getProp_def nth_upd
      split: val.splits option.splits)

lemma walkFuel_allocInstances [simp]: "walkFuel (allocInstances h r s) = walkFuel h"
  by (simp add: walkFuel_def)

lemma findScope_allocInstances:
  "findScope n (allocInstances h r s) cur aff = findScope n h cur aff"
  by (induction n arbitrary: cur) (simp_all add: getObj_allocInstances_props)

lemma serviceClassesOf_allocInstances:
  "serviceClassesOf (allocInstances h r s) sc service = serviceClassesOf h sc service"
  by (auto simp: serviceClassesOf_def allocInstances_def updObj_def getObj_def getArr_def nth_upd
      split: option.splits)

lemma findScope_result:
  "findScope n h cur aff = Some x \<Longrightarrow> truthy x \<Longrightarrow> propOfVal h x ''scopeName'' = aff"
  by (induction n arbitrary: cur) (auto split: if_splits)

lemma findScope_not_named:
  "findScope n h cur aff = Some (Ref c) \<Longrightarrow> propOfVal h (Ref c) ''scopeName'' = aff"
  by (rule findScope_result) simp_all

lemma findScope_truthy_Ref:
  assumes "findScope n h cur aff = Some x" and "truthy aff" and "truthy x"
  shows "\<exists>c. x = Ref c"
proof -
  from findScope_result[OF assms(1,3)] assms(2) have "truthy (propOfVal h x ''scopeName'')"
    by simp
  then show ?thesis by (cases x) (simp_all add: propOfVal_def)
qed

section \<open>The error of getSingleton\<close>

text \<open>
  Claim C3, as amended. Take a descriptor at \<open>index\<close> in the list of the
  requesting scope whose slot is not cached yet. If its affinity is
  unsatisfiable (it declares a truthy \<open>scope\<close>, the name of the requesting
  scope is not that name, and the walk up the parent chain reaches no scope
  of that name, or reaches one whose list for the service does not hold the
  descriptor), \<open>getSingleton\<close> raises the error that carries the service name
  and the required scope name. Otherwise \<open>getSingleton\<close> raises only in these
  cases: the parent chain is a cycle with no scope of that name and the walk
  never ends; the scope that the walk reached has no list for the service (a
  TypeError); or the construction of the instance raised, and the error is
  that of \<open>construct\<close>.
\<close>

theorem getSingleton_scope_error:
  assumes cs: "serviceClassesOf h sc service = Inr (Some cs)" and i: "index < length cs"
    and nc: "\<not> truthy (cached h sc service index)"
  shows "(unsatisfiable h sc service (cs ! index) \<longrightarrow>
            getSingleton req h sc service index options =
              Inl (ScopeNotFound service (propOfVal h (Ref (cs ! index)) ''scope'')))
       \<and> (\<not> unsatisfiable h sc service (cs ! index) \<and>
          getSingleton req h sc service index options = Inl e \<longrightarrow>
            e = Diverges \<or>
            (\<exists>c. findScope (walkFuel h) h (Ref sc)
                    (propOfVal h (Ref (cs ! index)) ''scope'') = Some (Ref c) \<and>
                 (serviceClassesOf h c service = Inl e \<or>
                  serviceClassesOf h c service = Inr None \<and> e = TypeError)) \<or>
            (\<exists>hc scc. construct req hc scc (cs ! index) options = Inl e))"
proof (intro conjI impI)
  from cs have sc: "sc < length (objs h)" by (rule serviceClassesOf_valid)
  then have o: "getObj h sc = Some (objs h ! sc)" by (simp add: getObj_def)
  have sn: "getProp (objs h ! sc) ''scopeName'' = propOfVal h (Ref sc) ''scopeName''"
    using o by (simp add: propOfVal_def)
  {
    assume u: "unsatisfiable h sc service (cs ! index)"
    then show "getSingleton req h sc service index options =
              Inl (ScopeNotFound service (propOfVal h (Ref (cs ! index)) ''scope''))"
      using cs i nc o sn
      by (auto simp: unsatisfiable_def getSingleton_def singletonOf_def Let_def getObj_allocInstances_props
          findScope_allocInstances serviceClassesOf_allocInstances fromOwningScope_def
          split: option.splits val.splits sum.splits if_splits)
  }
  {
    assume u: "\<not> unsatisfiable h sc service (cs ! index) \<and>
          getSingleton req h sc service index options = Inl e"
    then show "e = Diverges \<or>
            (\<exists>c. findScope (walkFuel h) h (Ref sc)
                    (propOfVal h (Ref (cs ! index)) ''scope'') = Some (Ref c) \<and>
                 (serviceClassesOf h c service = Inl e \<or>
                  serviceClassesOf h c service = Inr None \<and> e = TypeError)) \<or>
            (\<exists>hc scc. construct req hc scc (cs ! index) options = Inl e)"
      using cs i nc o sn
      by (auto simp: unsatisfiable_def getSingleton_def singletonOf_def Let_def getObj_allocInstances_props
          findScope_allocInstances serviceClassesOf_allocInstances fromOwningScope_def
          split: option.splits val.splits sum.splits if_splits
          dest: findScope_truthy_Ref findScope_not_named)
  }
qed


theorem getSingleton_scope_error_witness:
  "serviceClassesOf nestedHeap 1 ''lost'' = Inr (Some [3]) \<and>
   \<not> truthy (cached nestedHeap 1 ''lost'' 0) \<and>
   unsatisfiable nestedHeap 1 ''lost'' 3 \<and>
   getSingleton (\<lambda>h' sc' d. require 0 h' sc' d Undefined) nestedHeap 1 ''lost'' 0 Undefined
     = Inl (ScopeNotFound ''lost'' (Str ''nowhere'')) \<and>
   serviceClassesOf nestedHeap 1 ''own'' = Inr (Some [2]) \<and>
   \<not> truthy (cached nestedHeap 1 ''own'' 0) \<and>
   \<not> unsatisfiable nestedHeap 1 ''own'' 2 \<and>
   getSingleton (\<lambda>h' sc' d. require 0 h' sc' d Undefined) nestedHeap 1 ''own'' 0 Undefined
     = Inl TypeError \<and>
   findScope (walkFuel nestedHeap) nestedHeap (Ref 1) (Str ''outer'') = Some (Ref 0) \<and>
   serviceClassesOf nestedHeap 0 ''own'' = Inr None \<and>
   (\<exists>v h'. getSingleton (\<lambda>h' sc' d. require 0 h' sc' d Undefined) nestedHeap 1 ''svc'' 0
              Undefined = Inr (v, h'))"
proof -
  have c1: "serviceClassesOf nestedHeap 1 ''lost'' = Inr (Some [3])"
    and n1: "\<not> truthy (cached nestedHeap 1 ''lost'' 0)"
    and u1: "unsatisfiable nestedHeap 1 ''lost'' 3"
    and p1: "propOfVal nestedHeap (Ref 3) ''scope'' = Str ''nowhere''"
    and c2: "serviceClassesOf nestedHeap 1 ''own'' = Inr (Some [2])"
    and n2: "\<not> truthy (cached nestedHeap 1 ''own'' 0)"
    and u2: "\<not> unsatisfiable nestedHeap 1 ''own'' 2"
    and f: "findScope (walkFuel nestedHeap) nestedHeap (Ref 1) (Str ''outer'')
              = Some (Ref 0)"
    and s0: "serviceClassesOf nestedHeap 0 ''own'' = Inr None"
    by (simp_all add: nestedHeap_def heap_defs unsatisfiable_def)
  have g2: "getSingleton (\<lambda>h' sc' d. require 0 h' sc' d Undefined) nestedHeap 1 ''own'' 0
      Undefined = Inl TypeError"
    by (simp add: nestedHeap_def heap_defs code_defs)
  have g3: "\<exists>v h'. getSingleton (\<lambda>h' sc' d. require 0 h' sc' d Undefined) nestedHeap 1 ''svc'' 0
              Undefined = Inr (v, h')"
    by (simp add: nestedHeap_def heap_defs code_defs)
  from getSingleton_scope_error[OF c1 _ n1,
      where req = "\<lambda>h' sc' d. require 0 h' sc' d Undefined" and options = Undefined]
    u1 p1
  have g1: "getSingleton (\<lambda>h' sc' d. require 0 h' sc' d Undefined) nestedHeap 1 ''lost'' 0
      Undefined = Inl (ScopeNotFound ''lost'' (Str ''nowhere''))"
    by simp
  from c1 n1 u1 g1 c2 n2 u2 g2 f s0 g3 show ?thesis by blast
qed

text \<open>The claim as stated fails in \<open>nestedHeap\<close>. For \<open>local\<close>, the walk from
  \<open>inner\<close> does reach the scope named \<open>outer\<close>, and the error is raised all
  the same, because \<open>outer\<close> does not list the descriptor under \<open>local\<close>. For
  \<open>own\<close>, the walk reaches \<open>outer\<close> too, and \<open>getSingleton\<close> raises a
  TypeError, because \<open>outer\<close> has no list under \<open>own\<close>.\<close>

theorem getSingleton_scope_reached_counterexample:
  "propOfVal nestedHeap (Ref 2) ''scope'' = Str ''outer'' \<and>
   findScope (walkFuel nestedHeap) nestedHeap (Ref 1) (Str ''outer'') = Some (Ref 0) \<and>
   propOfVal nestedHeap (Ref 0) ''scopeName'' = Str ''outer'' \<and>
   getSingleton (\<lambda>h' sc' d. require 0 h' sc' d Undefined) nestedHeap 1 ''local'' 0 Undefined
     = Inl (ScopeNotFound ''local'' (Str ''outer'')) \<and>
   getSingleton (\<lambda>h' sc' d. require 0 h' sc' d Undefined) nestedHeap 1 ''own'' 0 Undefined
     = Inl TypeError"
  by (simp add: nestedHeap_def heap_defs code_defs)

lemma indexOf_last:
  "cs \<noteq> [] \<Longrightarrow> last cs = d \<Longrightarrow> d \<notin> set (butlast cs) \<Longrightarrow> indexOf cs d = Some (length cs - 1)"
proof (induction cs)
  case Nil
  then show ?case by simp
next
  case (Cons c cs)
  then show ?case by (cases "cs = []") (auto split: option.splits)
qed

lemma getSingleton_owner:
  assumes cs: "serviceClassesOf h sc service = Inr (Some cs)" and i: "index < length cs"
    and nc: "\<not> truthy (cached h sc service index)"
    and aff: "truthy (propOfVal h (Ref (cs ! index)) ''scope'')"
    and w: "findScope (walkFuel h) h (Ref sc) (propOfVal h (Ref (cs ! index)) ''scope'')
              = Some (Ref c)"
    and ne: "c \<noteq> sc"
    and ccs: "serviceClassesOf h c service = Inr (Some ccs)" and ci: "indexOf ccs (cs ! index) = Some ci"
  shows "Some (getSingleton req h sc service index options) =
           fromOwningScope req (allocInstances h sc service) sc service index options (cs ! index) c"
proof -
  from cs have sc: "sc < length (objs h)" by (rule serviceClassesOf_valid)
  then have o: "getObj h sc = Some (objs h ! sc)" by (simp add: getObj_def)
  have "fromOwningScope req (allocInstances h sc service) sc service index options (cs ! index) c
          \<noteq> None"
    using ccs ci
    by (auto simp: fromOwningScope_def serviceClassesOf_allocInstances Let_def split: sum.splits)
  then show ?thesis
    using cs i nc aff w ne o
    by (auto simp: getSingleton_def singletonOf_def Let_def getObj_allocInstances_props
        findScope_allocInstances)
qed

lemma require_singleton:
  "serviceClassesOf h sc name = Inr (Some cs) \<Longrightarrow> cs \<noteq> [] \<Longrightarrow>
   \<not> truthy (propOfVal h (Ref (last cs)) ''transient'') \<Longrightarrow>
   require (Suc n) h sc name options = Inr (v, h') \<Longrightarrow>
   getSingleton (\<lambda>h' sc' d. require n h' sc' d Undefined) h sc name (length cs - 1) options
     = Inr (v, h')"
  by (auto simp: propOfVal_def split: option.splits if_splits)


lemma fromOwningScope_hit:
  assumes ccs: "serviceClassesOf h cur service = Inr (Some ccs)" and ci: "indexOf ccs cls = Some ci"
    and c: "truthy (cached h cur service ci)"
  shows "fromOwningScope req h sc service index options cls cur =
           Some (Inr (cached h cur service ci,
                      setInstance (allocInstances h cur service) sc service index
                        (cached h cur service ci)))"
proof -
  from ccs have cur: "cur < length (objs h)" by (rule serviceClassesOf_valid)
  then have "getObj (allocInstances h cur service) cur
               = Some (objs (allocInstances h cur service) ! cur)"
    by (simp add: getObj_def)
  with ccs ci c cur show ?thesis
    by (simp add: fromOwningScope_def Let_def cached_allocInstances)
qed

lemma require_is_getSingleton:
  assumes "serviceClassesOf h sc name = Inr (Some cs)" and "cs \<noteq> []"
    and "last cs < length (objs h)"
    and "\<not> truthy (propOfVal h (Ref (last cs)) ''transient'')"
  shows "require (Suc n) h sc name options =
           getSingleton (\<lambda>h' sc' d. require n h' sc' d Undefined) h sc name (length cs - 1) options"
  using assms by (simp add: propOfVal_def getObj_def)

lemma require_descriptor_valid:
  "serviceClassesOf h sc name = Inr (Some cs) \<Longrightarrow> cs \<noteq> [] \<Longrightarrow>
   require (Suc n) h sc name options = Inr (v, h') \<Longrightarrow> last cs < length (objs h)"
  by (auto simp: getObj_def split: option.splits if_splits)

section \<open>A singleton of an ancestor scope\<close>

text \<open>
  Claim C2, as amended. Let the last descriptor of \<open>service\<close> be the same in
  the lists of the scopes \<open>inner\<close> and \<open>outer\<close>, occur once in the list of
  \<open>outer\<close>, not be transient and declare an affinity; let the walk from
  \<open>inner\<close> reach \<open>outer\<close>, a scope of that name, and let the slot of \<open>inner\<close>
  be empty. After a \<open>require\<close> from \<open>inner\<close> that returns, a \<open>require\<close> from
  \<open>outer\<close> returns the same instance; after a \<open>require\<close> from \<open>outer\<close> that
  returns, a \<open>require\<close> from \<open>inner\<close> returns the same instance. In both
  orders the instance is then in the slot of \<open>outer\<close> and in the slot of
  \<open>inner\<close>. The cache is keyed by scope, service name and position, so the
  instance is one per position in the list of the owning scope, not one per
  descriptor: see the counterexample below.
\<close>

theorem owning_scope_singleton:
  assumes ne: "inner \<noteq> outer"
    and csi: "serviceClassesOf h inner service = Inr (Some csi)" and nei: "csi \<noteq> []"
    and cso: "serviceClassesOf h outer service = Inr (Some cso)" and neo: "cso \<noteq> []"
    and same: "last cso = last csi" and once: "last csi \<notin> set (butlast cso)"
    and nt: "\<not> truthy (propOfVal h (Ref (last csi)) ''transient'')"
  shows "(truthy (propOfVal h (Ref (last csi)) ''scope'') \<and>
          findScope (walkFuel h) h (Ref inner) (propOfVal h (Ref (last csi)) ''scope'')
            = Some (Ref outer) \<and>
          \<not> truthy (cached h inner service (length csi - 1)) \<and>
          require (Suc n) h inner service o1 = Inr (v1, h1) \<and>
          \<not> truthy (propOfVal h1 (Ref (last csi)) ''transient'') \<longrightarrow>
            (\<exists>h2. require (Suc m) h1 outer service o2 = Inr (v1, h2)) \<and>
            cached h1 outer service (length cso - 1) = v1 \<and>
            cached h1 inner service (length csi - 1) = v1)
       \<and> (require (Suc n) h outer service o1 = Inr (v1, h1) \<and>
          \<not> truthy (propOfVal h1 (Ref (last csi)) ''transient'') \<and>
          truthy (propOfVal h1 (Ref (last csi)) ''scope'') \<and>
          findScope (walkFuel h1) h1 (Ref inner) (propOfVal h1 (Ref (last csi)) ''scope'')
            = Some (Ref outer) \<and>
          \<not> truthy (cached h1 inner service (length csi - 1)) \<longrightarrow>
            (\<exists>h2. require (Suc m) h1 inner service o2 = Inr (v1, h2) \<and>
               cached h2 outer service (length cso - 1) = v1 \<and>
               cached h2 inner service (length csi - 1) = v1))"
proof (rule conjI; rule impI)
  let ?req = "\<lambda>k. (\<lambda>h' sc' d. require k h' sc' d Undefined)"
  let ?i = "length csi - 1"
  let ?o = "length cso - 1"
  from nei have li: "csi ! ?i = last csi" and ii: "?i < length csi"
    by (simp_all add: last_conv_nth)
  from indexOf_last[OF neo same once] have io: "indexOf cso (last csi) = Some ?o" .
  from csi have inner: "inner < length (objs h)" by (rule serviceClassesOf_valid)
  from cso have outer: "outer < length (objs h)" by (rule serviceClassesOf_valid)
  from nt same have nto: "\<not> truthy (propOfVal h (Ref (last cso)) ''transient'')" by simp
  note owner = getSingleton_owner[where index = ?i and cs = csi and ci = ?o and ccs = cso,
      unfolded li, OF _ ii _ _ _ ne[symmetric] _ io]
  {
    assume a: "truthy (propOfVal h (Ref (last csi)) ''scope'') \<and>
          findScope (walkFuel h) h (Ref inner) (propOfVal h (Ref (last csi)) ''scope'')
            = Some (Ref outer) \<and>
          \<not> truthy (cached h inner service (length csi - 1)) \<and>
          require (Suc n) h inner service o1 = Inr (v1, h1) \<and>
          \<not> truthy (propOfVal h1 (Ref (last csi)) ''transient'')"
    then have aff: "truthy (propOfVal h (Ref (last csi)) ''scope'')"
      and w: "findScope (walkFuel h) h (Ref inner)
                (propOfVal h (Ref (last csi)) ''scope'') = Some (Ref outer)"
      and nc: "\<not> truthy (cached h inner service ?i)"
      and r1: "require (Suc n) h inner service o1 = Inr (v1, h1)"
      and nt1: "\<not> truthy (propOfVal h1 (Ref (last csi)) ''transient'')"
      by blast+
    from require_singleton[OF csi nei nt r1]
    have g1: "getSingleton (?req n) h inner service ?i o1 = Inr (v1, h1)" .
    from owner[OF csi nc aff w cso, of "?req n" o1] g1
    have f: "fromOwningScope (?req n) (allocInstances h inner service) inner service ?i o1
          (last csi) outer = Some (Inr (v1, h1))"
      by simp
    from fromOwningScope_post[OF f sound_require _ ne[symmetric]] inner
    have g: "grows (allocInstances h inner service) h1" and t: "truthy v1"
      and c1: "cached h1 inner service ?i = v1"
      and c2: "\<exists>ccs ci. serviceClassesOf (allocInstances h inner service) outer service
                 = Inr (Some ccs) \<and>
               indexOf ccs (last csi) = Some ci \<and> cached h1 outer service ci = v1"
      by auto
    from c2 cso io have c3: "cached h1 outer service ?o = v1"
      by (auto simp: serviceClassesOf_allocInstances)
    from g have gg: "grows h h1" by (blast intro: grows_trans grows_allocInstances)
    from serviceClassesOf_grows[OF gg cso]
    have cso1: "serviceClassesOf h1 outer service = Inr (Some cso)" .
    from nt1 same have nt1o: "\<not> truthy (propOfVal h1 (Ref (last cso)) ''transient'')" by simp
    from require_descriptor_valid[OF csi nei r1] gg same
    have "last cso < length (objs h1)" by (simp add: grows_def)
    from require_is_getSingleton[OF cso1 neo this nt1o, of m o2]
      getSingleton_hit[OF cso1, of ?o "?req m" o2] c3 t
    have "require (Suc m) h1 outer service o2 = Inr (v1, allocInstances h1 outer service)"
      by simp
    with c1 c3 show "(\<exists>h2. require (Suc m) h1 outer service o2 = Inr (v1, h2)) \<and>
            cached h1 outer service (length cso - 1) = v1 \<and>
            cached h1 inner service (length csi - 1) = v1"
      by blast
  }
  {
    assume a: "require (Suc n) h outer service o1 = Inr (v1, h1) \<and>
          \<not> truthy (propOfVal h1 (Ref (last csi)) ''transient'') \<and>
          truthy (propOfVal h1 (Ref (last csi)) ''scope'') \<and>
          findScope (walkFuel h1) h1 (Ref inner) (propOfVal h1 (Ref (last csi)) ''scope'')
            = Some (Ref outer) \<and>
          \<not> truthy (cached h1 inner service (length csi - 1))"
    then have r1: "require (Suc n) h outer service o1 = Inr (v1, h1)"
      and nt1: "\<not> truthy (propOfVal h1 (Ref (last csi)) ''transient'')"
      and aff: "truthy (propOfVal h1 (Ref (last csi)) ''scope'')"
      and w: "findScope (walkFuel h1) h1 (Ref inner)
                (propOfVal h1 (Ref (last csi)) ''scope'') = Some (Ref outer)"
      and nc: "\<not> truthy (cached h1 inner service ?i)"
      by blast+
    from require_singleton[OF cso neo nto r1]
    have g1: "getSingleton (?req n) h outer service ?o o1 = Inr (v1, h1)" .
    from getSingleton_post[OF g1 sound_require] cso
    have g: "grows h h1" and t: "truthy v1" and c: "cached h1 outer service ?o = v1"
      by auto
    from serviceClassesOf_grows[OF g cso] serviceClassesOf_grows[OF g csi]
    have cso1: "serviceClassesOf h1 outer service = Inr (Some cso)"
      and csi1: "serviceClassesOf h1 inner service = Inr (Some csi)" by auto
    from g inner outer have inner1: "inner < length (objs h1)" and outer1: "outer < length (objs h1)"
      by (auto dest: grows_length)
    define h2 where "h2 = setInstance (allocInstances (allocInstances h1 inner service) outer service)
                      inner service ?i v1"
    have c': "cached (allocInstances h1 inner service) outer service ?o = v1"
      using c outer1 by (simp add: cached_allocInstances)
    have cso2: "serviceClassesOf (allocInstances h1 inner service) outer service = Inr (Some cso)"
      using cso1 by (simp add: serviceClassesOf_allocInstances)
    from fromOwningScope_hit[OF cso2 io, of "?req m" inner ?i o2] c' t
    have f: "fromOwningScope (?req m) (allocInstances h1 inner service) inner service ?i o2
          (last csi) outer = Some (Inr (v1, h2))"
      by (simp add: h2_def)
    from owner[OF csi1 nc aff w cso1, of "?req m" o2] f
    have g2: "getSingleton (?req m) h1 inner service ?i o2 = Inr (v1, h2)" by simp
    from require_descriptor_valid[OF cso neo r1] g same
    have "last csi < length (objs h1)" by (simp add: grows_def)
    from require_is_getSingleton[OF csi1 nei this nt1, of m o2] g2
    have r2: "require (Suc m) h1 inner service o2 = Inr (v1, h2)" by simp
    from inner1 outer1 ne c have "cached h2 outer service ?o = v1"
      and "cached h2 inner service ?i = v1"
      by (simp_all add: h2_def cached_setInstance cached_allocInstances)
    with r2 show "\<exists>h2. require (Suc m) h1 inner service o2 = Inr (v1, h2) \<and>
               cached h2 outer service (length cso - 1) = v1 \<and>
               cached h2 inner service (length csi - 1) = v1"
      by blast
  }
qed

theorem owning_scope_singleton_witness:
  "(1::nat) \<noteq> 0 \<and>
   serviceClassesOf nestedHeap 1 ''svc'' = Inr (Some [2]) \<and>
   serviceClassesOf nestedHeap 0 ''svc'' = Inr (Some [2]) \<and>
   last [2 :: nat] \<notin> set (butlast [2]) \<and>
   \<not> truthy (propOfVal nestedHeap (Ref 2) ''transient'') \<and>
   truthy (propOfVal nestedHeap (Ref 2) ''scope'') \<and>
   findScope (walkFuel nestedHeap) nestedHeap (Ref 1)
     (propOfVal nestedHeap (Ref 2) ''scope'') = Some (Ref 0) \<and>
   \<not> truthy (cached nestedHeap 1 ''svc'' 0) \<and>
   (\<exists>h1 h2. require (Suc 0) nestedHeap 1 ''svc'' Undefined = Inr (Ref 4, h1) \<and>
      \<not> truthy (propOfVal h1 (Ref 2) ''transient'') \<and>
      require (Suc 0) h1 0 ''svc'' Undefined = Inr (Ref 4, h2) \<and>
      cached h1 0 ''svc'' 0 = Ref 4 \<and> cached h1 1 ''svc'' 0 = Ref 4) \<and>
   (\<exists>h1 h2. require (Suc 0) nestedHeap 0 ''svc'' Undefined = Inr (Ref 4, h1) \<and>
      \<not> truthy (propOfVal h1 (Ref 2) ''transient'') \<and>
      truthy (propOfVal h1 (Ref 2) ''scope'') \<and>
      findScope (walkFuel h1) h1 (Ref 1) (propOfVal h1 (Ref 2) ''scope'')
        = Some (Ref 0) \<and>
      \<not> truthy (cached h1 1 ''svc'' 0) \<and>
      require (Suc 0) h1 1 ''svc'' Undefined = Inr (Ref 4, h2) \<and>
      cached h2 0 ''svc'' 0 = Ref 4 \<and> cached h2 1 ''svc'' 0 = Ref 4)"
proof -
  have ne: "(1::nat) \<noteq> 0" by simp
  have csi: "serviceClassesOf nestedHeap 1 ''svc'' = Inr (Some [2])"
    and cso: "serviceClassesOf nestedHeap 0 ''svc'' = Inr (Some [2])"
    and once: "last [2 :: nat] \<notin> set (butlast [2])"
    and nt: "\<not> truthy (propOfVal nestedHeap (Ref 2) ''transient'')"
    and aff: "truthy (propOfVal nestedHeap (Ref 2) ''scope'')"
    and w: "findScope (walkFuel nestedHeap) nestedHeap (Ref 1)
              (propOfVal nestedHeap (Ref 2) ''scope'') = Some (Ref 0)"
    and nc: "\<not> truthy (cached nestedHeap 1 ''svc'' 0)"
    by (simp_all add: nestedHeap_def heap_defs)
  have nei: "[2 :: nat] \<noteq> []" and same: "last [2 :: nat] = last [2]"
    and nt': "\<not> truthy (propOfVal nestedHeap (Ref (last [2])) ''transient'')"
    using nt by simp_all
  note t = owning_scope_singleton[OF ne csi nei cso nei same once nt',
      where n = 0 and m = 0 and ?o1.0 = Undefined and ?o2.0 = Undefined]
  have "\<exists>h1. require (Suc 0) nestedHeap 1 ''svc'' Undefined = Inr (Ref 4, h1) \<and>
      \<not> truthy (propOfVal h1 (Ref 2) ''transient'')"
    by (simp add: nestedHeap_def heap_defs code_defs)
  then obtain h1 where a: "require (Suc 0) nestedHeap 1 ''svc'' Undefined = Inr (Ref 4, h1)"
      "\<not> truthy (propOfVal h1 (Ref 2) ''transient'')"
    by (elim exE conjE)
  from t[of "Ref 4" h1] a aff w nc
  have "(\<exists>h2. require (Suc 0) h1 0 ''svc'' Undefined = Inr (Ref 4, h2)) \<and>
        cached h1 0 ''svc'' 0 = Ref 4 \<and> cached h1 1 ''svc'' 0 = Ref 4"
    by (simp del: require.simps findScope.simps)
  with a have first: "\<exists>h1 h2. require (Suc 0) nestedHeap 1 ''svc'' Undefined = Inr (Ref 4, h1) \<and>
      \<not> truthy (propOfVal h1 (Ref 2) ''transient'') \<and>
      require (Suc 0) h1 0 ''svc'' Undefined = Inr (Ref 4, h2) \<and>
      cached h1 0 ''svc'' 0 = Ref 4 \<and> cached h1 1 ''svc'' 0 = Ref 4"
    by blast
  have "\<exists>k1. require (Suc 0) nestedHeap 0 ''svc'' Undefined = Inr (Ref 4, k1) \<and>
      \<not> truthy (propOfVal k1 (Ref 2) ''transient'') \<and>
      truthy (propOfVal k1 (Ref 2) ''scope'') \<and>
      findScope (walkFuel k1) k1 (Ref 1) (propOfVal k1 (Ref 2) ''scope'')
        = Some (Ref 0) \<and>
      \<not> truthy (cached k1 1 ''svc'' 0)"
    by (simp add: nestedHeap_def heap_defs code_defs)
  then obtain k1 where b: "require (Suc 0) nestedHeap 0 ''svc'' Undefined = Inr (Ref 4, k1)"
      "\<not> truthy (propOfVal k1 (Ref 2) ''transient'')"
      "truthy (propOfVal k1 (Ref 2) ''scope'')"
      "findScope (walkFuel k1) k1 (Ref 1) (propOfVal k1 (Ref 2) ''scope'')
        = Some (Ref 0)"
      "\<not> truthy (cached k1 1 ''svc'' 0)"
    by (elim exE conjE)
  from t[of "Ref 4" k1] b
  have "\<exists>k2. require (Suc 0) k1 1 ''svc'' Undefined = Inr (Ref 4, k2) \<and>
        cached k2 0 ''svc'' 0 = Ref 4 \<and> cached k2 1 ''svc'' 0 = Ref 4"
    by (simp del: require.simps findScope.simps)
  with b have second: "\<exists>h1 h2. require (Suc 0) nestedHeap 0 ''svc'' Undefined = Inr (Ref 4, h1) \<and>
      \<not> truthy (propOfVal h1 (Ref 2) ''transient'') \<and>
      truthy (propOfVal h1 (Ref 2) ''scope'') \<and>
      findScope (walkFuel h1) h1 (Ref 1) (propOfVal h1 (Ref 2) ''scope'')
        = Some (Ref 0) \<and>
      \<not> truthy (cached h1 1 ''svc'' 0) \<and>
      require (Suc 0) h1 1 ''svc'' Undefined = Inr (Ref 4, h2) \<and>
      cached h2 0 ''svc'' 0 = Ref 4 \<and> cached h2 1 ''svc'' 0 = Ref 4"
    by blast
  from ne csi cso once nt aff w nc first second show ?thesis by blast
qed

text \<open>The claim as stated fails in \<open>nestedHeap\<close>: \<open>outer\<close> lists the descriptor
  (object 2) under \<open>svc\<close> and under \<open>alias\<close>. Resolved from \<open>inner\<close> under
  \<open>svc\<close>, it gives object 4, constructed with the scope \<open>outer\<close>; resolved
  then from \<open>outer\<close> under \<open>alias\<close>, it gives object 5, constructed with the
  scope \<open>outer\<close> too: two instances of one descriptor in one owning scope.\<close>

theorem owning_scope_two_instances_counterexample:
  "returned (require (Suc 0) nestedHeap 1 ''svc'' Undefined) = Some (Ref 4) \<and>
   returned (require (Suc 0) (heapAfter (require (Suc 0) nestedHeap 1 ''svc'' Undefined))
               0 ''alias'' Undefined) = Some (Ref 5) \<and>
   builtAfter (require (Suc 0) (heapAfter (require (Suc 0) nestedHeap 1 ''svc'' Undefined))
                 0 ''alias'' Undefined) 4 = Some (2, [Ref 0, Undefined]) \<and>
   builtAfter (require (Suc 0) (heapAfter (require (Suc 0) nestedHeap 1 ''svc'' Undefined))
                 0 ''alias'' Undefined) 5 = Some (2, [Ref 0, Undefined])"
  by (simp add: nestedHeap_def heap_defs code_defs returned_def builtAfter_def heapAfter_def)

section \<open>What a resolution returns: lemmas\<close>

lemma props_allocInstances:
  "r < length (objs h) \<Longrightarrow> props (objs (allocInstances h sc service) ! r) = props (objs h ! r)"
  by (simp add: allocInstances_def updObj_def nth_upd split: option.splits)

lemma props_setInstance:
  "r < length (objs h) \<Longrightarrow> props (objs (setInstance h sc service i v) ! r) = props (objs h ! r)"
  by (simp add: setInstance_def updObj_def nth_upd)

lemma getSingleton_no_affinity:
  assumes cs: "serviceClassesOf h sc service = Inr (Some cs)" and i: "index < length cs"
    and nc: "\<not> truthy (cached h sc service index)"
    and na: "\<not> truthy (propOfVal h (Ref (cs ! index)) ''scope'')"
  shows "getSingleton req h sc service index options =
           (case construct req (allocInstances h sc service) sc (cs ! index) options of
              Inl e \<Rightarrow> Inl e
            | Inr (v, h2) \<Rightarrow> Inr (v, setInstance h2 sc service index v))"
proof -
  from cs have sc: "sc < length (objs h)" by (rule serviceClassesOf_valid)
  then have o: "getObj h sc = Some (objs h ! sc)" by (simp add: getObj_def)
  from cs i nc na o show ?thesis
    by (simp add: getSingleton_def singletonOf_def Let_def getObj_allocInstances_props)
qed

lemma grows_mapServices:
  "sound req \<Longrightarrow> mapServices req h sc service options i cs = Inr (vs, h') \<Longrightarrow> grows h h'"
proof (induction cs arbitrary: h i vs)
  case Nil
  then show ?case by (simp add: grows_refl)
next
  case (Cons c cs)
  from Cons.prems(2) obtain v h1 vs' where
    g: "getServiceInstance req h sc service options c i = Inr (v, h1)"
    and m: "mapServices req h1 sc service options (Suc i) cs = Inr (vs', h')"
    by (auto split: sum.splits)
  from grows_getServiceInstance[OF Cons.prems(1) g] Cons.IH[OF Cons.prems(1) m]
  show ?case by (rule grows_trans)
qed


lemma constructible_allocInstances [simp]:
  "constructible (allocInstances h r s) d = constructible h d"
  by (auto simp: constructible_def allocInstances_def updObj_def getObj_def getProp_def nth_upd
      split: option.splits)

lemma owningScope_allocInstances [simp]:
  "owningScope (allocInstances h r s) sc service d = owningScope h sc service d"
  unfolding owningScope_def getObj_allocInstances_props walkFuel_allocInstances
    findScope_allocInstances serviceClassesOf_allocInstances
  by (rule refl)

lemma madeFrom_frame:
  assumes m: "madeFrom a b d v" and c: "constructible h d = constructible a d"
    and l: "length (objs h) \<le> length (objs a)" and g: "grows b h'"
  shows "madeFrom h h' d v"
proof (cases "constructible a d")
  case True
  with m obtain r where v: "v = Ref r" and r: "length (objs a) \<le> r" "r < length (objs b)"
    and b: "(case built (objs b ! r) of None \<Rightarrow> False | Some (c, args) \<Rightarrow> c = d)"
    by (auto simp: madeFrom_def split: val.splits)
  from g r(2) have "r < length (objs h')" "built (objs h' ! r) = built (objs b ! r)"
    by (auto simp: grows_def)
  with v r l b c True show ?thesis by (simp add: madeFrom_def)
next
  case False
  with m c show ?thesis by (simp add: madeFrom_def)
qed

lemma construct_made:
  assumes c: "construct req h sc d options = Inr (v, h')" and s: "sound req"
  shows "madeFrom h h' d v"
proof (cases "constructible h d")
  case True
  then obtain c' where o: "getObj h d = Some c'" and k: "isFunction c'"
      "\<not> truthy (getProp c' ''isStatic'')"
    by (auto simp: constructible_def split: option.splits)
  from construct_built[OF c s o k] obtain args h1 where
    ca: "constructorArguments req h sc c' options = Inr (args, h1)"
    and v: "v = Ref (length (objs h1))"
    and b: "built (objs h' ! length (objs h1)) = Some (d, args)"
    by (elim exE conjE)
  from construct_fresh[OF c s True] v
  have "length (objs h) \<le> length (objs h1)" "length (objs h1) < length (objs h')" by auto
  with v b True show ?thesis by (simp add: madeFrom_def)
next
  case False
  from c False have "v = Ref d"
    by (elim construct_cases) (auto simp: constructible_def)
  with False show ?thesis by (simp add: madeFrom_def)
qed

text \<open>Which way \<open>getSingleton\<close> goes for a descriptor whose slot is
  empty.\<close>

lemma singletonOf_split:
  assumes g: "singletonOf req h0 s sc service index options cls = Inr (v, h')"
  shows "case owningScope h0 sc service cls of
           None \<Rightarrow>
             (\<exists>h2. construct req h0 sc cls options = Inr (v, h2) \<and>
                   h' = setInstance h2 sc service index v)
         | Some (cur, ci) \<Rightarrow>
             cur \<noteq> sc \<and>
             fromOwningScope req h0 sc service index options cls cur = Some (Inr (v, h')) \<and>
             (\<exists>ccs. serviceClassesOf h0 cur service = Inr (Some ccs) \<and>
                    indexOf ccs cls = Some ci)"
proof (cases "truthy (propOfVal h0 (Ref cls) ''scope'')")
  case False
  with g show ?thesis
    by (auto simp: singletonOf_def owningScope_def Let_def split: sum.splits)
next
  case True
  show ?thesis
  proof (cases "findScope (walkFuel h0) h0 (Ref sc) (propOfVal h0 (Ref cls) ''scope'')")
    case None
    with g True show ?thesis by (simp add: singletonOf_def Let_def)
  next
    case (Some cur)
    show ?thesis
    proof (cases "\<exists>c. cur = Ref c \<and> c \<noteq> sc")
      case False
      with g True Some show ?thesis
        by (cases cur)
          (auto simp: singletonOf_def owningScope_def Let_def split: sum.splits if_splits)
    next
      case c: True
      then obtain c where cur: "cur = Ref c" and ne: "c \<noteq> sc" by blast
      show ?thesis
      proof (cases "fromOwningScope req h0 sc service index options cls c")
        case None
        then have "\<exists>ccs. serviceClassesOf h0 c service = Inr (Some ccs) \<and> indexOf ccs cls = None"
          by (auto simp: fromOwningScope_def Let_def split: sum.splits option.splits if_splits)
        with g True Some cur ne None show ?thesis
          by (auto simp: singletonOf_def owningScope_def Let_def split: sum.splits if_splits)
      next
        case (Some r)
        with g True \<open>findScope (walkFuel h0) h0 (Ref sc) (propOfVal h0 (Ref cls) ''scope'')
            = Some cur\<close> cur ne
        have r: "r = Inr (v, h')" by (simp add: singletonOf_def Let_def)
        with Some obtain ccs ci where "serviceClassesOf h0 c service = Inr (Some ccs)"
          "indexOf ccs cls = Some ci"
          by (auto simp: fromOwningScope_def Let_def split: sum.splits option.splits if_splits)
        with Some r True \<open>findScope (walkFuel h0) h0 (Ref sc) (propOfVal h0 (Ref cls) ''scope'')
            = Some cur\<close> cur ne
        show ?thesis by (simp add: owningScope_def Let_def)
      qed
    qed
  qed
qed

lemma fromOwningScope_split:
  assumes f: "fromOwningScope req h0 sc service index options cls cur = Some (Inr (v, h'))"
    and ccs: "serviceClassesOf h0 cur service = Inr (Some ccs)"
    and ci: "indexOf ccs cls = Some ci"
  shows "(truthy (cached h0 cur service ci) \<and> v = cached h0 cur service ci \<and>
          h' = setInstance (allocInstances h0 cur service) sc service index v)
       \<or> (\<not> truthy (cached h0 cur service ci) \<and>
          (\<exists>h2. construct req (allocInstances h0 cur service) cur cls options = Inr (v, h2) \<and>
                h' = setInstance (setInstance h2 sc service index v) cur service ci v))"
  using f ccs ci
  by (auto simp: fromOwningScope_def Let_def cached_allocInstances
      split: sum.splits if_splits)

lemma getSingleton_resolved:
  assumes g: "getSingleton req h sc service index options = Inr (v, h')" and s: "sound req"
    and cs: "serviceClassesOf h sc service = Inr (Some cs)" and i: "index < length cs"
    and nt: "\<not> truthy (propOfVal h (Ref (cs ! index)) ''transient'')"
  shows "resolvedFrom h h' sc service index (cs ! index) v"
proof -
  let ?d = "cs ! index"
  let ?h0 = "allocInstances h sc service"
  from cs have sc: "sc < length (objs h)" by (rule serviceClassesOf_valid)
  then have o: "getObj h sc = Some (objs h ! sc)" by (simp add: getObj_def)
  from getSingleton_post[OF g s] cs
  have g': "grows h h'" and t: "truthy v" and c: "cached h' sc service index = v" by auto
  show ?thesis
  proof (cases "truthy (cached h sc service index)")
    case True
    with getSingleton_hit[OF cs True, of req options] g have "v = cached h sc service index"
      by simp
    with t c nt True show ?thesis by (simp add: resolvedFrom_def)
  next
    case False
    with g cs o i
    have so: "singletonOf req ?h0 (objs h ! sc) sc service index options ?d = Inr (v, h')"
      by (auto simp: getSingleton_def Let_def split: if_splits)
    have l0: "length (objs h) \<le> length (objs ?h0)" by simp
    show ?thesis
    proof (cases "owningScope h sc service ?d")
      case None
      with singletonOf_split[OF so] obtain h2 where
        k: "construct req ?h0 sc ?d options = Inr (v, h2)"
        and h': "h' = setInstance h2 sc service index v"
        by auto
      have "madeFrom h h' ?d v"
        using madeFrom_frame[OF construct_made[OF k s] _ l0, of h'] h'
        by (simp add: grows_setInstance)
      with t c nt False None show ?thesis by (simp add: resolvedFrom_def)
    next
      case (Some p)
      obtain cur ci where p: "p = (cur, ci)" by (cases p)
      with singletonOf_split[OF so] Some obtain ccs where
        f: "fromOwningScope req ?h0 sc service index options ?d cur = Some (Inr (v, h'))"
        and ne: "cur \<noteq> sc"
        and ccs: "serviceClassesOf ?h0 cur service = Inr (Some ccs)"
        and ci: "indexOf ccs ?d = Some ci"
        by auto
      from fromOwningScope_post[OF f s _ ne] sc ccs ci
      have c2: "cached h' cur service ci = v" by auto
      let ?h1 = "allocInstances ?h0 cur service"
      from fromOwningScope_split[OF f ccs ci]
      have "if truthy (cached h cur service ci) then v = cached h cur service ci
            else madeFrom h h' ?d v"
      proof (elim disjE conjE exE)
        assume "truthy (cached ?h0 cur service ci)" "v = cached ?h0 cur service ci"
        then show ?thesis by (simp add: cached_allocInstances)
      next
        fix h2
        assume n: "\<not> truthy (cached ?h0 cur service ci)"
          and k: "construct req ?h1 cur ?d options = Inr (v, h2)"
          and h': "h' = setInstance (setInstance h2 sc service index v) cur service ci v"
        have "grows h2 h'" unfolding h' by (blast intro: grows_trans grows_setInstance)
        from madeFrom_frame[OF construct_made[OF k s] _ _ this, of h] n
        show ?thesis by (simp add: cached_allocInstances)
      qed
      with t c c2 nt False Some p show ?thesis by (simp add: resolvedFrom_def)
    qed
  qed
qed

lemma getServiceInstance_resolved:
  assumes g: "getServiceInstance req h sc service options d index = Inr (v, h')"
    and s: "sound req"
    and cs: "serviceClassesOf h sc service = Inr (Some cs)" and i: "index < length cs"
    and d: "cs ! index = d"
  shows "resolvedFrom h h' sc service index d v"
proof (cases "truthy (propOfVal h (Ref d) ''transient'')")
  case True
  with g have "construct req h sc d options = Inr (v, h')"
    by (auto simp: getServiceInstance_def propOfVal_def split: option.splits if_splits)
  from construct_made[OF this s] True show ?thesis by (simp add: resolvedFrom_def)
next
  case False
  with g have "getSingleton req h sc service index options = Inr (v, h')"
    by (auto simp: getServiceInstance_def propOfVal_def split: option.splits if_splits)
  from getSingleton_resolved[OF this s cs i] False d show ?thesis by simp
qed

text \<open>The states between the steps of the map of \<open>getServices\<close>.\<close>

lemma mapServices_chain:
  assumes m: "mapServices req h sc service options k ds = Inr (vs, h')" and s: "sound req"
    and cs: "serviceClassesOf h sc service = Inr (Some cs)" and ds: "ds = drop k cs"
  shows "length vs = length ds \<and>
         (\<exists>hs. length hs = Suc (length ds) \<and> hs ! 0 = h \<and> hs ! length ds = h' \<and>
            (\<forall>i < length ds.
               grows (hs ! i) (hs ! Suc i) \<and>
               resolvedFrom (hs ! i) (hs ! Suc i) sc service (k + i) (ds ! i) (vs ! i)))"
  using m cs ds
proof (induction ds arbitrary: h k vs)
  case Nil
  then have "vs = []" "h' = h" by auto
  then show ?case by (auto intro: exI[of _ "[h]"])
next
  case (Cons d ds)
  from Cons.prems(1) obtain v h1 vs' where
    g: "getServiceInstance req h sc service options d k = Inr (v, h1)"
    and m': "mapServices req h1 sc service options (Suc k) ds = Inr (vs', h')"
    and vs: "vs = v # vs'"
    by (auto split: sum.splits)
  from Cons.prems(3) have k: "k < length cs" by (cases "k < length cs") auto
  from Cons.prems(3) Cons_nth_drop_Suc[OF k] have "d # ds = cs ! k # drop (Suc k) cs"
    by simp
  then have dk: "cs ! k = d" and ds': "ds = drop (Suc k) cs" by simp_all
  from grows_getServiceInstance[OF s g] have g1: "grows h h1" .
  from getServiceInstance_resolved[OF g s Cons.prems(2) k dk]
  have r1: "resolvedFrom h h1 sc service k d v" .
  from serviceClassesOf_grows[OF g1 Cons.prems(2)]
  have cs1: "serviceClassesOf h1 sc service = Inr (Some cs)" .
  from Cons.IH[OF m' cs1 ds'] obtain hs where l: "length vs' = length ds"
    and hs: "length hs = Suc (length ds)" "hs ! 0 = h1" "hs ! length ds = h'"
    and st: "\<forall>i < length ds.
               grows (hs ! i) (hs ! Suc i) \<and>
               resolvedFrom (hs ! i) (hs ! Suc i) sc service (Suc k + i) (ds ! i) (vs' ! i)"
    by blast
  have "grows ((h # hs) ! i) ((h # hs) ! Suc i) \<and>
        resolvedFrom ((h # hs) ! i) ((h # hs) ! Suc i) sc service (k + i) ((d # ds) ! i) (vs ! i)"
    if "i < length (d # ds)" for i
  proof (cases i)
    case 0
    with g1 r1 hs vs show ?thesis by simp
  next
    case (Suc j)
    with that st vs show ?thesis by simp
  qed
  with hs have "length (h # hs) = Suc (length (d # ds)) \<and> (h # hs) ! 0 = h \<and>
      (h # hs) ! length (d # ds) = h' \<and>
      (\<forall>i < length (d # ds).
         grows ((h # hs) ! i) ((h # hs) ! Suc i) \<and>
         resolvedFrom ((h # hs) ! i) ((h # hs) ! Suc i) sc service (k + i) ((d # ds) ! i)
           (vs ! i))"
    by simp
  then have "\<exists>hs'. length hs' = Suc (length (d # ds)) \<and> hs' ! 0 = h \<and>
      hs' ! length (d # ds) = h' \<and>
      (\<forall>i < length (d # ds).
         grows (hs' ! i) (hs' ! Suc i) \<and>
         resolvedFrom (hs' ! i) (hs' ! Suc i) sc service (k + i) ((d # ds) ! i) (vs ! i))"
    by (rule exI)
  with l vs show ?case by simp
qed

text \<open>The prefixes of the map of \<open>getServices\<close>.\<close>

lemma mapServices_append:
  "mapServices req h sc service options k (xs @ ys) =
     (case mapServices req h sc service options k xs of
        Inl e \<Rightarrow> Inl e
      | Inr (vs1, h1) \<Rightarrow>
          (case mapServices req h1 sc service options (k + length xs) ys of
             Inl e \<Rightarrow> Inl e
           | Inr (vs2, h2) \<Rightarrow> Inr (vs1 @ vs2, h2)))"
  by (induction xs arbitrary: h k) (auto split: sum.splits)

lemma mapServices_length:
  "mapServices req h sc service options k cs = Inr (vs, h') \<Longrightarrow> length vs = length cs"
  by (induction cs arbitrary: h k vs) (auto split: sum.splits)

lemma mapServices_step:
  assumes m: "mapServices req h sc service options 0 cs = Inr (vs, h')" and i: "i < length cs"
  shows "\<exists>a b. mapServices req h sc service options 0 (take i cs) = Inr (take i vs, a) \<and>
           getServiceInstance req a sc service options (cs ! i) i = Inr (vs ! i, b) \<and>
           mapServices req h sc service options 0 (take (Suc i) cs) = Inr (take (Suc i) vs, b)"
proof -
  from i have e: "cs = take i cs @ cs ! i # drop (Suc i) cs" by (rule id_take_nth_drop)
  from m have "mapServices req h sc service options 0 (take i cs @ cs ! i # drop (Suc i) cs)
      = Inr (vs, h')"
    using e by simp
  then obtain vs1 a vs2 where p: "mapServices req h sc service options 0 (take i cs) = Inr (vs1, a)"
    and q: "mapServices req a sc service options (length (take i cs)) (cs ! i # drop (Suc i) cs)
              = Inr (vs2, h')"
    and v: "vs = vs1 @ vs2"
    unfolding mapServices_append by (auto split: sum.splits)
  from i have li: "length (take i cs) = i" by simp
  from q obtain x b vs3 where g: "getServiceInstance req a sc service options (cs ! i) i = Inr (x, b)"
    and v2: "vs2 = x # vs3"
    unfolding li by (auto split: sum.splits)
  from mapServices_length[OF p] li have l1: "length vs1 = i" by simp
  with v v2 have t: "take i vs = vs1" "vs ! i = x" "take (Suc i) vs = vs1 @ [x]"
    by (simp_all add: nth_append)
  from i have "take (Suc i) cs = take i cs @ [cs ! i]" by (rule take_Suc_conv_app_nth)
  then have "mapServices req h sc service options 0 (take (Suc i) cs) = Inr (vs1 @ [x], b)"
    using p g li by (simp add: mapServices_append)
  with p g t show ?thesis by simp
qed

text \<open>A descriptor that declares no dependency and no scope affinity is
  resolved without a nested resolution: its resolution returns.\<close>

lemma selfContained_transfer:
  assumes "selfContained h d" and "grows h h'"
    and "\<forall>r < length (objs h). props (objs h' ! r) = props (objs h ! r)"
  shows "selfContained h' d"
proof -
  from assms(1) have d: "d < length (objs h)"
    by (auto simp: selfContained_def getObj_def split: option.splits if_splits)
  with assms(2) have "d < length (objs h')" "inject (objs h' ! d) = inject (objs h ! d)"
    "injectProperties (objs h' ! d) = injectProperties (objs h ! d)"
    by (auto simp: grows_def)
  with assms(1,3) d show ?thesis by (simp add: selfContained_def getObj_def getProp_def)
qed

lemma construct_selfContained:
  assumes "selfContained h d"
  shows "\<exists>v h'. construct req h sc d options = Inr (v, h') \<and>
           (\<forall>r < length (objs h). props (objs h' ! r) = props (objs h ! r))"
  using assms
  by (auto simp: selfContained_def construct_def constructorArguments_def newInstance_def
      nth_append split: option.splits)

lemma getServiceInstance_returns:
  assumes p: "selfContained h d" and s: "sound req"
    and cs: "serviceClassesOf h sc service = Inr (Some cs)" and i: "index < length cs"
    and d: "cs ! index = d"
  shows "\<exists>v h'. getServiceInstance req h sc service options d index = Inr (v, h') \<and>
           (\<forall>r < length (objs h). props (objs h' ! r) = props (objs h ! r))"
proof -
  from p obtain c where o: "getObj h d = Some c" and na: "\<not> truthy (getProp c ''scope'')"
    by (auto simp: selfContained_def split: option.splits)
  show ?thesis
  proof (cases "truthy (getProp c ''transient'')")
    case True
    with o construct_selfContained[OF p, of req sc options] show ?thesis
      by (simp add: getServiceInstance_def)
  next
    case False
    with o have e: "getServiceInstance req h sc service options d index =
        getSingleton req h sc service index options"
      by (simp add: getServiceInstance_def)
    show ?thesis
    proof (cases "truthy (cached h sc service index)")
      case True
      from getSingleton_hit[OF cs True, of req options] e show ?thesis
        by (simp add: props_allocInstances)
    next
      case nc: False
      let ?h0 = "allocInstances h sc service"
      from o na d have na': "\<not> truthy (propOfVal h (Ref (cs ! index)) ''scope'')"
        by (simp add: propOfVal_def)
      have "selfContained ?h0 d"
        by (rule selfContained_transfer[OF p grows_allocInstances])
          (simp add: props_allocInstances)
      from construct_selfContained[OF this, of req sc options] obtain v h2 where
        k: "construct req ?h0 sc d options = Inr (v, h2)"
        and f: "\<forall>r < length (objs ?h0). props (objs h2 ! r) = props (objs ?h0 ! r)"
        by blast
      from grows_construct[OF s k] have "length (objs ?h0) \<le> length (objs h2)"
        by (simp add: grows_def)
      with f have "\<forall>r < length (objs h).
          props (objs (setInstance h2 sc service index v) ! r) = props (objs h ! r)"
        by (simp add: props_setInstance props_allocInstances)
      with getSingleton_no_affinity[OF cs i nc na', of req options] k d e
      show ?thesis by simp
    qed
  qed
qed

lemma mapServices_returns:
  assumes s: "sound req"
  shows "\<forall>d \<in> set ds. selfContained h d \<Longrightarrow>
         serviceClassesOf h sc service = Inr (Some cs) \<Longrightarrow> ds = drop k cs \<Longrightarrow>
         \<exists>vs h'. mapServices req h sc service options k ds = Inr (vs, h')"
proof (induction ds arbitrary: h k)
  case Nil
  show ?case by simp
next
  case (Cons d ds)
  from Cons.prems(3) have k: "k < length cs" by (cases "k < length cs") auto
  from Cons.prems(3) Cons_nth_drop_Suc[OF k] have "d # ds = cs ! k # drop (Suc k) cs"
    by simp
  then have dk: "cs ! k = d" and ds': "ds = drop (Suc k) cs" by simp_all
  from Cons.prems(1) have p: "selfContained h d" by simp
  from getServiceInstance_returns[OF p s Cons.prems(2) k dk, of options] obtain v h1 where
    g: "getServiceInstance req h sc service options d k = Inr (v, h1)"
    and f: "\<forall>r < length (objs h). props (objs h1 ! r) = props (objs h ! r)"
    by blast
  from grows_getServiceInstance[OF s g] have g1: "grows h h1" .
  from Cons.prems(1) have "\<forall>x \<in> set ds. selfContained h1 x"
    by (auto intro: selfContained_transfer[OF _ g1 f])
  from Cons.IH[OF this serviceClassesOf_grows[OF g1 Cons.prems(2)] ds'] obtain vs h' where
    "mapServices req h1 sc service options (Suc k) ds = Inr (vs, h')" by blast
  with g show ?case by simp
qed

section \<open>getServices and the resolution miss\<close>

text \<open>
  Claim C7, as amended. When \<open>getServices\<close> returns for a name with the
  descriptors \<open>cs\<close>, the sequence it returns has the length of \<open>cs\<close>, and
  its \<open>i\<close>-th element is the resolution of the \<open>i\<close>-th descriptor, at index
  \<open>i\<close>, between the state that the resolution of the descriptors before it
  left (the state of the call for the first) and the state it leaves itself
  (the state that the call leaves for the last), by the flag of that
  descriptor in the former: instantiated when flagged transient, the
  instance of slot \<open>i\<close> otherwise (see \<open>resolvedFrom\<close>); each of these states
  only adds to the one before. \<open>getServices\<close> returns when the descriptors
  declare no dependency and no scope affinity. When the list is empty, or
  the name has no list and is not a name that plain objects inherit,
  \<open>getServices\<close> returns the empty sequence and \<open>require\<close> returns null;
  neither raises, and the state is unchanged. When the name has no list and
  is an inherited name, \<open>getServices\<close> raises a TypeError, and \<open>require\<close>
  returns null provided the inherited function has length 0 or no instance
  at its last index.
\<close>

theorem getServices_registration_order:
  "(serviceClassesOf h sc service = Inr (Some cs) \<and>
    getServices n h sc service options = Inr (vs, h') \<longrightarrow>
      length vs = length cs \<and>
      stateAt n h sc service options cs 0 = h \<and>
      stateAt n h sc service options cs (length cs) = h' \<and>
      (\<forall>i < length cs.
         grows (stateAt n h sc service options cs i)
           (stateAt n h sc service options cs (Suc i)) \<and>
         resolvedFrom (stateAt n h sc service options cs i)
           (stateAt n h sc service options cs (Suc i)) sc service i (cs ! i) (vs ! i)))
   \<and> (serviceClassesOf h sc service = Inr (Some cs) \<and> (\<forall>d \<in> set cs. selfContained h d) \<longrightarrow>
        (\<exists>ws k. getServices n h sc service options = Inr (ws, k)))
   \<and> (serviceClassesOf h sc service = Inr (Some []) \<or>
      serviceClassesOf h sc service = Inr None \<and> \<not> inheritedName service \<longrightarrow>
        getServices n h sc service options = Inr ([], h) \<and>
        require (Suc n) h sc service options = Inr (Null, h))
   \<and> (serviceClassesOf h sc service = Inr None \<and> inheritedName service \<longrightarrow>
        getServices n h sc service options = Inl TypeError \<and>
        ((\<forall>len. functionLength service = Some len \<longrightarrow>
            len = 0 \<or> \<not> truthy (slotOf (functionSlots h) service (len - 1))) \<longrightarrow>
           require (Suc n) h sc service options = Inr (Null, h)))"
proof (intro conjI impI)
  let ?req = "\<lambda>h' sc' d. require n h' sc' d Undefined"
  assume a: "serviceClassesOf h sc service = Inr (Some cs) \<and>
    getServices n h sc service options = Inr (vs, h')"
  then have cs: "serviceClassesOf h sc service = Inr (Some cs)"
    and m: "mapServices ?req h sc service options 0 cs = Inr (vs, h')"
    by (auto simp: getServices_def)
  from mapServices_length[OF m] show "length vs = length cs" .
  show "stateAt n h sc service options cs 0 = h" by (simp add: stateAt_def heapAfter_def)
  from m show "stateAt n h sc service options cs (length cs) = h'"
    by (simp add: stateAt_def heapAfter_def)
  show "\<forall>i < length cs.
         grows (stateAt n h sc service options cs i)
           (stateAt n h sc service options cs (Suc i)) \<and>
         resolvedFrom (stateAt n h sc service options cs i)
           (stateAt n h sc service options cs (Suc i)) sc service i (cs ! i) (vs ! i)"
  proof (intro allI impI)
    fix i
    assume i: "i < length cs"
    from mapServices_step[OF m i] obtain a b where
      p: "mapServices ?req h sc service options 0 (take i cs) = Inr (take i vs, a)"
      and g: "getServiceInstance ?req a sc service options (cs ! i) i = Inr (vs ! i, b)"
      and q: "mapServices ?req h sc service options 0 (take (Suc i) cs)
                = Inr (take (Suc i) vs, b)"
      by (elim exE conjE)
    from p have sa: "stateAt n h sc service options cs i = a"
      by (simp add: stateAt_def heapAfter_def)
    from q have sb: "stateAt n h sc service options cs (Suc i) = b"
      by (simp add: stateAt_def heapAfter_def)
    from grows_mapServices[OF sound_require p] have "grows h a" .
    from serviceClassesOf_grows[OF this cs]
    have csa: "serviceClassesOf a sc service = Inr (Some cs)" .
    from grows_getServiceInstance[OF sound_require g]
      getServiceInstance_resolved[OF g sound_require csa i refl]
    show "grows (stateAt n h sc service options cs i)
           (stateAt n h sc service options cs (Suc i)) \<and>
         resolvedFrom (stateAt n h sc service options cs i)
           (stateAt n h sc service options cs (Suc i)) sc service i (cs ! i) (vs ! i)"
      unfolding sa sb by simp
  qed
next
  assume a: "serviceClassesOf h sc service = Inr (Some cs) \<and> (\<forall>d \<in> set cs. selfContained h d)"
  from mapServices_returns[OF sound_require[of n Undefined],
      where ds = cs and k = 0 and cs = cs and options = options and h = h and sc = sc
        and service = service] a
  show "\<exists>ws k. getServices n h sc service options = Inr (ws, k)"
    by (simp add: getServices_def)
next
  assume a: "serviceClassesOf h sc service = Inr (Some []) \<or>
      serviceClassesOf h sc service = Inr None \<and> \<not> inheritedName service"
  then show "getServices n h sc service options = Inr ([], h)"
    by (auto simp: getServices_def)
  from a show "require (Suc n) h sc service options = Inr (Null, h)"
    by (auto simp: requireInherited_def inheritedName_def)
next
  assume a: "serviceClassesOf h sc service = Inr None \<and> inheritedName service"
  then show "getServices n h sc service options = Inl TypeError"
    by (simp add: getServices_def)
  assume "\<forall>len. functionLength service = Some len \<longrightarrow>
            len = 0 \<or> \<not> truthy (slotOf (functionSlots h) service (len - 1))"
  with a show "require (Suc n) h sc service options = Inr (Null, h)"
    by (auto simp: requireInherited_def Let_def split: option.splits)
qed

theorem getServices_registration_order_witness:
  "serviceClassesOf appHeap 0 ''both'' = Inr (Some [2, 1]) \<and>
   selfContained appHeap 2 \<and> selfContained appHeap 1 \<and>
   (\<exists>h'. getServices 0 appHeap 0 ''both'' Undefined = Inr ([Ref 4, Ref 5], h') \<and>
      built (objs h' ! 4) = Some (2, [Ref 0, Undefined]) \<and>
      built (objs h' ! 5) = Some (1, [Ref 0, Undefined]) \<and>
      cached h' 0 ''both'' 1 = Ref 5 \<and>
      stateAt 0 appHeap 0 ''both'' Undefined [2, 1] 0 = appHeap \<and>
      stateAt 0 appHeap 0 ''both'' Undefined [2, 1] 2 = h' \<and>
      resolvedFrom (stateAt 0 appHeap 0 ''both'' Undefined [2, 1] 0)
        (stateAt 0 appHeap 0 ''both'' Undefined [2, 1] 1) 0 ''both'' 0 2 (Ref 4) \<and>
      resolvedFrom (stateAt 0 appHeap 0 ''both'' Undefined [2, 1] 1)
        (stateAt 0 appHeap 0 ''both'' Undefined [2, 1] 2) 0 ''both'' 1 1 (Ref 5)) \<and>
   serviceClassesOf appHeap 0 ''missing'' = Inr None \<and> \<not> inheritedName ''missing'' \<and>
   getServices 0 appHeap 0 ''missing'' Undefined = Inr ([], appHeap) \<and>
   require (Suc 0) appHeap 0 ''missing'' Undefined = Inr (Null, appHeap) \<and>
   serviceClassesOf appHeap 0 ''toString'' = Inr None \<and> inheritedName ''toString'' \<and>
   functionLength ''toString'' = Some 0 \<and>
   getServices 0 appHeap 0 ''toString'' Undefined = Inl TypeError \<and>
   require (Suc 0) appHeap 0 ''toString'' Undefined = Inr (Null, appHeap)"
proof -
  have s: "serviceClassesOf appHeap 0 ''both'' = Inr (Some [2, 1])"
    by (simp add: appHeap_def heap_defs)
  have p0: "selfContained appHeap 2" "selfContained appHeap 1"
    by (simp_all add: appHeap_def heap_defs selfContained_def)
  then have p: "\<forall>d \<in> set [2, 1]. selfContained appHeap d" by simp
  note t1 = getServices_registration_order[of appHeap 0 "''both''" "[2, 1]" 0 Undefined]
  from t1[of "[]" appHeap] s p
  have "\<exists>ws k. getServices 0 appHeap 0 ''both'' Undefined = Inr (ws, k)" by blast
  moreover have "\<exists>h'. getServices 0 appHeap 0 ''both'' Undefined = Inr ([Ref 4, Ref 5], h') \<and>
      built (objs h' ! 4) = Some (2, [Ref 0, Undefined]) \<and>
      built (objs h' ! 5) = Some (1, [Ref 0, Undefined]) \<and>
      cached h' 0 ''both'' 1 = Ref 5"
    by (simp add: appHeap_def heap_defs code_defs)
  ultimately obtain h' where
    g: "getServices 0 appHeap 0 ''both'' Undefined = Inr ([Ref 4, Ref 5], h')"
    and b: "built (objs h' ! 4) = Some (2, [Ref 0, Undefined])"
      "built (objs h' ! 5) = Some (1, [Ref 0, Undefined])"
      "cached h' 0 ''both'' 1 = Ref 5"
    by (elim exE conjE)
  have m: "serviceClassesOf appHeap 0 ''missing'' = Inr None" "\<not> inheritedName ''missing''"
    by (simp_all add: appHeap_def heap_defs)
  have t: "serviceClassesOf appHeap 0 ''toString'' = Inr None" "inheritedName ''toString''"
    "functionLength ''toString'' = Some 0"
    by (simp_all add: appHeap_def heap_defs)
  from t1[of "[Ref 4, Ref 5]" h'] s g
  have st: "stateAt 0 appHeap 0 ''both'' Undefined [2, 1] 0 = appHeap"
      "stateAt 0 appHeap 0 ''both'' Undefined [2, 1] (length [2, 1 :: nat]) = h'"
    and al: "\<forall>i < length [2, 1 :: nat].
         grows (stateAt 0 appHeap 0 ''both'' Undefined [2, 1] i)
           (stateAt 0 appHeap 0 ''both'' Undefined [2, 1] (Suc i)) \<and>
         resolvedFrom (stateAt 0 appHeap 0 ''both'' Undefined [2, 1] i)
           (stateAt 0 appHeap 0 ''both'' Undefined [2, 1] (Suc i)) 0 ''both'' i
           ([2, 1] ! i) ([Ref 4, Ref 5] ! i)"
    by blast+
  have r0: "resolvedFrom (stateAt 0 appHeap 0 ''both'' Undefined [2, 1] 0)
        (stateAt 0 appHeap 0 ''both'' Undefined [2, 1] 1) 0 ''both'' 0 2 (Ref 4)"
    using al[rule_format, of 0] by simp
  have r1: "resolvedFrom (stateAt 0 appHeap 0 ''both'' Undefined [2, 1] 1)
        (stateAt 0 appHeap 0 ''both'' Undefined [2, 1] 2) 0 ''both'' 1 1 (Ref 5)"
    using al[rule_format, of 1] by (simp add: numeral_2_eq_2)
  from st(2) have st2: "stateAt 0 appHeap 0 ''both'' Undefined [2, 1] 2 = h'"
    by (simp add: numeral_2_eq_2)
  from getServices_registration_order[of appHeap 0 "''missing''" "[]" 0 Undefined
      "[]" appHeap] m
  have e: "getServices 0 appHeap 0 ''missing'' Undefined = Inr ([], appHeap)"
    "require (Suc 0) appHeap 0 ''missing'' Undefined = Inr (Null, appHeap)"
    by blast+
  from getServices_registration_order[of appHeap 0 "''toString''" "[]" 0 Undefined
      "[]" appHeap] t
  have i: "getServices 0 appHeap 0 ''toString'' Undefined = Inl TypeError"
    "require (Suc 0) appHeap 0 ''toString'' Undefined = Inr (Null, appHeap)"
    by (simp_all del: require.simps)
  from s p0 g b st(1) st2 r0 r1 m e t i show ?thesis by blast
qed

text \<open>Against claim C7 as stated: \<open>getServices\<close> raises when the resolution
  of a descriptor raises (the scope \<open>inner\<close> lists under \<open>lost\<close> one
  descriptor, whose affinity no scope satisfies), and it raises for a name
  under which nothing is registered when plain objects inherit a property of
  that name.\<close>

theorem getServices_raises_counterexample:
  "serviceClassesOf nestedHeap 1 ''lost'' = Inr (Some [3]) \<and>
   getServices 0 nestedHeap 1 ''lost'' Undefined = Inl (ScopeNotFound ''lost'' (Str ''nowhere'')) \<and>
   serviceClassesOf appHeap 0 ''toString'' = Inr None \<and>
   getServices 0 appHeap 0 ''toString'' Undefined = Inl TypeError"
  by (simp add: nestedHeap_def appHeap_def heap_defs code_defs)

section \<open>require resolves the last descriptor\<close>

text \<open>
  Claim C8. For a name with the descriptors \<open>cs\<close>, not empty, what a
  \<open>require\<close> call returns is the resolution of the last descriptor of \<open>cs\<close>,
  at the last index, whatever the other descriptors are: flagged transient,
  it is instantiated (a new object built by that descriptor, or the
  descriptor itself when it is static); otherwise the value is truthy and is
  in the last slot of the scope after the call, it is the instance already in
  that slot if there is one, and if not it is instantiated from the last
  descriptor (or is the instance of the scope that owns the singleton). The
  call returns when the last descriptor declares no dependency and no scope
  affinity. \<open>register\<close> puts the new descriptor last, so after \<open>register\<close> what
  \<open>require\<close> returns is the resolution of the descriptor just registered.
\<close>

theorem require_most_recent:
  "(serviceClassesOf h sc name = Inr (Some cs) \<and> cs \<noteq> [] \<and>
    require (Suc n) h sc name options = Inr (v, h') \<longrightarrow>
      resolvedFrom h h' sc name (length cs - 1) (last cs) v)
   \<and> (serviceClassesOf h sc name = Inr (Some cs) \<and> cs \<noteq> [] \<and> selfContained h (last cs) \<longrightarrow>
      (\<exists>x k. require (Suc n) h sc name options = Inr (x, k)))
   \<and> (serviceClassesOf h sc name = Inr old \<and> register h sc name cls = Inr h1 \<longrightarrow>
      serviceClassesOf h1 sc name =
        Inr (Some ((case old of None \<Rightarrow> [] | Some cs \<Rightarrow> cs) @ [cls])) \<and>
      (require (Suc n) h1 sc name options = Inr (w, h2) \<longrightarrow>
         resolvedFrom h1 h2 sc name (length (case old of None \<Rightarrow> [] | Some cs \<Rightarrow> cs))
           cls w))"
proof -
  have last: "resolvedFrom a b sc name (length ds - 1) (last ds) x"
    if ds: "serviceClassesOf a sc name = Inr (Some ds)" and ne: "ds \<noteq> []"
      and r: "require (Suc n) a sc name options = Inr (x, b)" for a b ds x
  proof -
    from require_last[OF ds ne, of n options] r
    have g: "getServiceInstance (\<lambda>h' sc' d. require n h' sc' d Undefined)
        a sc name options (last ds) (length ds - 1) = Inr (x, b)"
      by simp
    from ne have i: "length ds - 1 < length ds" and d: "ds ! (length ds - 1) = last ds"
      by (simp_all add: last_conv_nth)
    from getServiceInstance_resolved[OF g sound_require ds i d] show ?thesis .
  qed
  have first: "serviceClassesOf h sc name = Inr (Some cs) \<and> cs \<noteq> [] \<and>
    require (Suc n) h sc name options = Inr (v, h') \<longrightarrow>
      resolvedFrom h h' sc name (length cs - 1) (last cs) v"
    using last by blast
  have second: "serviceClassesOf h sc name = Inr old \<and> register h sc name cls = Inr h1 \<longrightarrow>
      serviceClassesOf h1 sc name =
        Inr (Some ((case old of None \<Rightarrow> [] | Some cs \<Rightarrow> cs) @ [cls])) \<and>
      (require (Suc n) h1 sc name options = Inr (w, h2) \<longrightarrow>
         resolvedFrom h1 h2 sc name (length (case old of None \<Rightarrow> [] | Some cs \<Rightarrow> cs))
           cls w)"
  proof (intro impI conjI)
    assume a: "serviceClassesOf h sc name = Inr old \<and> register h sc name cls = Inr h1"
    with register_appends[of h sc name old cls h1]
    show s: "serviceClassesOf h1 sc name =
        Inr (Some ((case old of None \<Rightarrow> [] | Some cs \<Rightarrow> cs) @ [cls]))"
      by blast
    assume "require (Suc n) h1 sc name options = Inr (w, h2)"
    from last[OF s _ this]
    show "resolvedFrom h1 h2 sc name (length (case old of None \<Rightarrow> [] | Some cs \<Rightarrow> cs))
           cls w"
      by simp
  qed
  have returns: "serviceClassesOf h sc name = Inr (Some cs) \<and> cs \<noteq> [] \<and>
      selfContained h (last cs) \<longrightarrow>
      (\<exists>x k. require (Suc n) h sc name options = Inr (x, k))"
  proof
    assume a: "serviceClassesOf h sc name = Inr (Some cs) \<and> cs \<noteq> [] \<and>
      selfContained h (last cs)"
    then have i: "length cs - 1 < length cs" and d: "cs ! (length cs - 1) = last cs"
      by (simp_all add: last_conv_nth)
    from a have cs: "serviceClassesOf h sc name = Inr (Some cs)" and ne: "cs \<noteq> []"
      and p: "selfContained h (last cs)"
      by blast+
    from getServiceInstance_returns[OF p sound_require[of n Undefined] cs i d,
        where options = options]
      require_last[OF cs ne, of n options]
    show "\<exists>x k. require (Suc n) h sc name options = Inr (x, k)"
      by (auto simp del: require.simps)
  qed
  from first returns second show ?thesis by blast
qed

theorem require_most_recent_witness:
  "serviceClassesOf appHeap 0 ''singleton'' = Inr (Some [1]) \<and> [1 :: nat] \<noteq> [] \<and>
   selfContained appHeap (last [1]) \<and>
   (\<exists>h'. require (Suc 0) appHeap 0 ''singleton'' Undefined = Inr (Ref 4, h') \<and>
      built (objs h' ! 4) = Some (1, [Ref 0, Undefined]) \<and>
      cached h' 0 ''singleton'' 0 = Ref 4 \<and>
      resolvedFrom appHeap h' 0 ''singleton'' (length [1 :: nat] - 1) (last [1]) (Ref 4)) \<and>
   (\<exists>h1 h2. register appHeap 0 ''singleton'' 2 = Inr h1 \<and>
      serviceClassesOf h1 0 ''singleton'' = Inr (Some [1, 2]) \<and>
      require (Suc 0) h1 0 ''singleton'' Undefined = Inr (Ref 4, h2) \<and>
      built (objs h2 ! 4) = Some (2, [Ref 0, Undefined]) \<and>
      resolvedFrom h1 h2 0 ''singleton'' (length [1 :: nat]) 2 (Ref 4))"
proof -
  have s: "serviceClassesOf appHeap 0 ''singleton'' = Inr (Some [1])"
    by (simp add: appHeap_def heap_defs)
  have p: "selfContained appHeap (last [1])"
    by (simp add: appHeap_def heap_defs selfContained_def)
  from require_most_recent[of appHeap 0 "''singleton''" "[1]" 0 Undefined] s p
  have "\<exists>x k. require (Suc 0) appHeap 0 ''singleton'' Undefined = Inr (x, k)"
    by (simp del: require.simps)
  moreover have "\<exists>h'. require (Suc 0) appHeap 0 ''singleton'' Undefined = Inr (Ref 4, h') \<and>
      built (objs h' ! 4) = Some (1, [Ref 0, Undefined]) \<and>
      cached h' 0 ''singleton'' 0 = Ref 4"
    by (simp add: appHeap_def heap_defs code_defs)
  ultimately obtain h' where r: "require (Suc 0) appHeap 0 ''singleton'' Undefined = Inr (Ref 4, h')"
    and b: "built (objs h' ! 4) = Some (1, [Ref 0, Undefined])"
    and c: "cached h' 0 ''singleton'' 0 = Ref 4"
    by (elim exE conjE)
  from require_most_recent[of appHeap 0 "''singleton''" "[1]" 0 Undefined "Ref 4" h'] s r
  have f: "resolvedFrom appHeap h' 0 ''singleton'' (length [1 :: nat] - 1) (last [1]) (Ref 4)"
    by (simp del: require.simps)
  have "\<exists>h1 h2. register appHeap 0 ''singleton'' 2 = Inr h1 \<and>
      require (Suc 0) h1 0 ''singleton'' Undefined = Inr (Ref 4, h2) \<and>
      built (objs h2 ! 4) = Some (2, [Ref 0, Undefined])"
    by (simp add: appHeap_def heap_defs code_defs register_def newArray_def
        initializeService_def)
  then obtain h1 h2 where g: "register appHeap 0 ''singleton'' 2 = Inr h1"
    and r2: "require (Suc 0) h1 0 ''singleton'' Undefined = Inr (Ref 4, h2)"
    and b2: "built (objs h2 ! 4) = Some (2, [Ref 0, Undefined])"
    by (elim exE conjE)
  from require_most_recent[of appHeap 0 "''singleton''" _ 0 Undefined _ _ "Some [1]" 2 h1
      "Ref 4" h2] s g r2
  have "serviceClassesOf h1 0 ''singleton'' = Inr (Some [1, 2])"
    and "resolvedFrom h1 h2 0 ''singleton'' (length [1 :: nat]) 2 (Ref 4)"
    by (simp_all del: require.simps)
  with s p r b c f g r2 b2 show ?thesis by blast
qed

section \<open>lifecycle and a missing method\<close>

lemma serviceRun_exposing:
  "serviceRun h method options svcs = serviceRun h method options (exposing h method svcs)"
proof (induction svcs)
  case Nil
  show ?case by (simp add: exposing_def)
next
  case (Cons x rest)
  have n: "nextStep err (xs \<noteq> []) (callNthService h method options xs) =
      (if truthy err then [Done err] else serviceRun h method options xs)" for err xs
    by (simp add: nextStep_def serviceRun_def)
  show ?case
  proof (cases "methodOf h x method")
    case None
    then have "serviceRun h method options (x # rest) = serviceRun h method options rest"
      by (simp add: serviceRun_def nextStep_def)
    moreover from None have "exposing h method (x # rest) = exposing h method rest"
      by (simp add: exposing_def)
    ultimately show ?thesis using Cons by simp
  next
    case (Some f)
    then have e: "exposing h method (x # rest) = x # exposing h method rest"
      by (simp add: exposing_def)
    have "serviceRun h method options (x # rest) =
        Ran (Method x method) #
          (case f options of
             Silent \<Rightarrow> []
           | Calls err \<Rightarrow> if truthy err then [Done err] else serviceRun h method options rest)"
      using Some by (simp add: serviceRun_def n split: reply.splits)
    moreover have "serviceRun h method options (x # exposing h method rest) =
        Ran (Method x method) #
          (case f options of
             Silent \<Rightarrow> []
           | Calls err \<Rightarrow> if truthy err then [Done err]
                         else serviceRun h method options (exposing h method rest))"
      using Some by (simp add: serviceRun_def n split: reply.splits)
    ultimately show ?thesis using Cons e by (cases "f options") simp_all
  qed
qed

lemma callService_run:
  "getServices n h sc service Undefined = Inr (svcs, h1) \<Longrightarrow>
   callService n h sc service method options = Inr (serviceRun h1 method options svcs, h1)"
  by (simp add: callService_def serviceRun_def)

lemma exposing_fewer:
  "\<exists>v \<in> set svcs. methodOf h v method = None \<Longrightarrow>
   length (exposing h method svcs) < length svcs"
  unfolding exposing_def
  by (auto intro: length_filter_less)

text \<open>
  Claim C10. Let the arguments before a pair (service name, method name) be
  whole items whose steps are built without error, and let \<open>getServices\<close>
  return, for the service name of the pair, instances one of which does not
  have the method. Then \<open>lifecycle\<close> raises a TypeError, at build time: it
  returns no function. \<open>callService\<close> for the same service and method, on the
  state in which the pair is expanded, raises nothing and skips the instances
  without the method: its run is the run on the instances that have the
  method alone, which are fewer. When every instance lets the chain go on,
  that run is the methods of the instances that have the method, in order,
  then \<open>done()\<close>.
\<close>

theorem lifecycle_missing_method:
  assumes "aligned pre" and "lifecycle n h sc pre = Inr (steps0, h0)"
    and "getServices n h0 sc s Undefined = Inr (svcs, h1)"
    and "\<exists>v \<in> set svcs. methodOf h1 v m = None"
  shows "lifecycle n h sc (pre @ Name s # Name m # rest) = Inl TypeError
       \<and> callService n h0 sc s m options =
           Inr (serviceRun h1 m options (exposing h1 m svcs), h1)
       \<and> length (exposing h1 m svcs) < length svcs
       \<and> ((\<forall>x \<in> set svcs. succeeds h1 m options x) \<longrightarrow>
            callService n h0 sc s m options =
              Inr (map (\<lambda>x. Ran (Method x m)) (exposing h1 m svcs) @ [Done Undefined], h1))"
proof -
  from assms(3,4) have "expandPair n h0 sc s (Some m) = Inl TypeError"
    by (simp add: expandPair_def serviceToMethod_lacking)
  then have "lifecycle n h0 sc (Name s # Name m # rest) = Inl TypeError"
    by (simp add: thenSteps_def)
  with assms(1,2) have l: "lifecycle n h sc (pre @ Name s # Name m # rest) = Inl TypeError"
    by (simp add: lifecycle_append thenSteps_def)
  from callService_run[OF assms(3)] serviceRun_exposing[of h1 m options svcs]
  have c: "callService n h0 sc s m options =
           Inr (serviceRun h1 m options (exposing h1 m svcs), h1)"
    by simp
  from assms(4) have ne: "svcs \<noteq> []" by auto
  have a: "callService n h0 sc s m options =
              Inr (map (\<lambda>x. Ran (Method x m)) (exposing h1 m svcs) @ [Done Undefined], h1)"
    if "\<forall>x \<in> set svcs. succeeds h1 m options x"
    using callService_run[OF assms(3), of m options] callNthService_all[OF that ne] ne
    by (simp add: serviceRun_def)
  from l c exposing_fewer[OF assms(4)] a show ?thesis by blast
qed

theorem lifecycle_missing_method_witness:
  "aligned [Fn 0 (\<lambda>options. Calls Undefined)] \<and>
   lifecycle 0 svcHeap 0 [Fn 0 (\<lambda>options. Calls Undefined)]
     = Inr ([(Function 0, \<lambda>options. Calls Undefined)], svcHeap) \<and>
   (\<exists>h1. getServices 0 svcHeap 0 ''service'' Undefined = Inr ([Ref 5, Ref 6, Ref 7], h1) \<and>
      methodOf h1 (Ref 6) ''method'' = None \<and>
      (\<forall>x \<in> set [Ref 5, Ref 6, Ref 7]. succeeds h1 ''method'' (Str ''ctx'') x) \<and>
      exposing h1 ''method'' [Ref 5, Ref 6, Ref 7] = [Ref 5, Ref 7] \<and>
      lifecycle 0 svcHeap 0
        ([Fn 0 (\<lambda>options. Calls Undefined)] @ Name ''service'' # Name ''method'' # [])
        = Inl TypeError \<and>
      callService 0 svcHeap 0 ''service'' ''method'' (Str ''ctx'') =
        Inr ([Ran (Method (Ref 5) ''method''), Ran (Method (Ref 7) ''method''),
              Done Undefined], h1))"
proof -
  have a: "aligned [Fn 0 (\<lambda>options. Calls Undefined)]" by simp
  have l: "lifecycle 0 svcHeap 0 [Fn 0 (\<lambda>options. Calls Undefined)]
     = Inr ([(Function 0, \<lambda>options. Calls Undefined)], svcHeap)"
    by (simp add: thenSteps_def)
  have "\<exists>h1. getServices 0 svcHeap 0 ''service'' Undefined = Inr ([Ref 5, Ref 6, Ref 7], h1) \<and>
      methodOf h1 (Ref 6) ''method'' = None \<and>
      (\<forall>x \<in> set [Ref 5, Ref 6, Ref 7]. succeeds h1 ''method'' (Str ''ctx'') x) \<and>
      exposing h1 ''method'' [Ref 5, Ref 6, Ref 7] = [Ref 5, Ref 7]"
    by (simp add: svcHeap_def heap_defs code_defs methodOf_def succeeds_def exposing_def)
  then obtain h1 where
    g: "getServices 0 svcHeap 0 ''service'' Undefined = Inr ([Ref 5, Ref 6, Ref 7], h1)"
    and m: "methodOf h1 (Ref 6) ''method'' = None"
    and s: "\<forall>x \<in> set [Ref 5, Ref 6, Ref 7]. succeeds h1 ''method'' (Str ''ctx'') x"
    and x: "exposing h1 ''method'' [Ref 5, Ref 6, Ref 7] = [Ref 5, Ref 7]"
    by (elim exE conjE)
  from m have e: "\<exists>v \<in> set [Ref 5, Ref 6, Ref 7]. methodOf h1 v ''method'' = None" by simp
  note t = lifecycle_missing_method[OF a l g e, of "[]" "Str ''ctx''"]
  from t have r: "lifecycle 0 svcHeap 0
        ([Fn 0 (\<lambda>options. Calls Undefined)] @ Name ''service'' # Name ''method'' # [])
        = Inl TypeError"
    by (rule conjunct1)
  from t s have "callService 0 svcHeap 0 ''service'' ''method'' (Str ''ctx'') =
        Inr (map (\<lambda>x. Ran (Method x ''method''))
               (exposing h1 ''method'' [Ref 5, Ref 6, Ref 7]) @ [Done Undefined], h1)"
    by blast
  then have c: "callService 0 svcHeap 0 ''service'' ''method'' (Str ''ctx'') =
        Inr ([Ran (Method (Ref 5) ''method''), Ran (Method (Ref 7) ''method''),
              Done Undefined], h1)"
    by (simp add: x)
  from a l g m s x r c show ?thesis by blast
qed

section \<open>The scope registered as a service\<close>











































end
